theory Spec2Isabelle
  imports Complex_Main "HOL-Library.Word"
begin

unbundle bit_operations_syntax

section \<open>Undefined behaviour\<close>

text \<open>
  Where C leaves the behaviour of an operation undefined and the machine gives it no
  single meaning, the model returns a fault instead of a value: a load or store outside
  an array is \<open>Inl OutOfBounds\<close>, a failed \<open>assert_\<close> is \<open>Inl AssertFailed\<close>, and a shift
  of a 32-bit \<open>int\<close> by a count outside \<open>0 .. 31\<close> is \<open>Inl UndefinedShift\<close>.
\<close>

datatype fault = OutOfBounds | AssertFailed | UndefinedShift

section \<open>Touch sampler (msp2807\_touch.c)\<close>

text \<open>
  The \<open>int\<close> fields of \<open>touch_control_t\<close> are 32-bit words, read as signed numbers with
  \<open>sint\<close>: \<open>+\<close> and \<open>-\<close> wrap modulo \<open>2 ^ 32\<close> as the machine instructions do, \<open>>>\<close> on an
  \<open>int\<close> is the arithmetic shift \<open>signed_drop_bit\<close>, and the conversion of an \<open>int\<close> to
  \<open>uint64_t\<close> (the comparison of the elapsed time with a threshold) is the sign
  extension \<open>scast\<close>. The system time is a \<open>64 word\<close>, so the subtraction
  \<open>ktm64_now - mTmOfLastTouch\<close> wraps. A pointer that may be \<open>NULL\<close> is an \<open>option\<close>.
  The pin numbers of \<open>touch_hwconfig_t\<close> are only passed on and stay \<open>int\<close>.
\<close>

record touch_hwconfig_t =
  mGPIO_miso :: int
  mGPIO_cs :: int
  mGPIO_sck :: int
  mGPIO_mosi :: int
  mGPIO_ispressed :: int

record touch_control_t =
  mpHWConfig :: "touch_hwconfig_t option"
  mIsPressed :: bool
  mTmOfLastTouch :: "64 word"
  mIsProcessed :: bool
  mX :: "32 word"
  mY :: "32 word"
  mXf :: "32 word"
  mYf :: "32 word"
  mkTmMinFlick :: "32 word"
  mkTmLongFlick :: "32 word"
  mkBetaShft :: "32 word"

text \<open>
  What the hardware answers during one call: the level of every GPIO pin, the two halves
  of the microsecond timer, and the bytes the touch controller returns on SPI
  (\<open>spi_rx\<close> is the stream, \<open>spi_pos\<close> the number of bytes read so far).
\<close>

record touch_hw =
  gpio_get :: "int \<Rightarrow> bool"
  timelr :: "32 word"
  timehr :: "32 word"
  spi_rx :: "nat \<Rightarrow> 8 word"
  spi_pos :: nat

text \<open>
  \<open>TouchReadRegisters\<close>: two one-byte reads (X, then Y); each \<open>uint8_t\<close> is stored
  in an \<open>int\<close>, so it is zero-extended.
\<close>

definition TouchReadRegisters :: "touch_control_t \<Rightarrow> touch_hw \<Rightarrow> touch_control_t \<times> touch_hw" where
  "TouchReadRegisters c hw =
     (let res0 = spi_rx hw (spi_pos hw);
          res1 = spi_rx hw (spi_pos hw + 1)
      in (c\<lparr>mX := ucast res0, mY := ucast res1, mIsProcessed := True\<rparr>,
          hw\<lparr>spi_pos := spi_pos hw + 2\<rparr>))"

text \<open>
  The exponential update of one axis,
  \<open>f += ((raw << 14) - f + (1 << (beta - 1))) >> beta\<close>, on 32-bit words. The two
  shifts by \<open>beta - 1\<close> and by \<open>beta\<close> are defined for \<open>1 \<le> beta \<le> 31\<close> only.
\<close>

definition filter_update :: "32 word \<Rightarrow> 32 word \<Rightarrow> 32 word \<Rightarrow> fault + 32 word" where
  "filter_update beta raw f =
     (if 1 \<le> sint beta \<and> sint beta \<le> 31
      then Inr (f + signed_drop_bit (nat (sint beta))
                      (push_bit 14 raw - f + push_bit (nat (sint beta - 1)) 1))
      else Inl UndefinedShift)"

text \<open>Feeding the same raw sample \<open>n\<close> times.\<close>

fun filter_run :: "32 word \<Rightarrow> 32 word \<Rightarrow> nat \<Rightarrow> 32 word \<Rightarrow> fault + 32 word" where
  "filter_run beta raw 0 f = Inr f"
| "filter_run beta raw (Suc n) f =
     (case filter_update beta raw f of
        Inl e \<Rightarrow> Inl e
      | Inr g \<Rightarrow> filter_run beta raw n g)"

definition long_flick_branch :: "64 word \<Rightarrow> touch_control_t \<Rightarrow> touch_hw \<Rightarrow> touch_control_t \<times> touch_hw" where
  "long_flick_branch ktm64_now c hw =
     (let (c1, hw1) = TouchReadRegisters c hw;
          c2 = c1\<lparr>mTmOfLastTouch := ktm64_now\<rparr>;
          c3 = c2\<lparr>mXf := push_bit 14 (mX c2)\<rparr>;
          c4 = c3\<lparr>mYf := push_bit 14 (mY c3)\<rparr>
      in (c4, hw1))"

definition min_flick_branch :: "64 word \<Rightarrow> touch_control_t \<Rightarrow> touch_hw \<Rightarrow> fault + touch_control_t \<times> touch_hw" where
  "min_flick_branch ktm64_now c hw =
     (let (c1, hw1) = TouchReadRegisters c hw;
          c2 = c1\<lparr>mTmOfLastTouch := ktm64_now\<rparr>
      in case filter_update (mkBetaShft c2) (mX c2) (mXf c2) of
           Inl e \<Rightarrow> Inl e
         | Inr xf \<Rightarrow>
             (let c3 = c2\<lparr>mXf := xf\<rparr>
              in case filter_update (mkBetaShft c3) (mY c3) (mYf c3) of
                   Inl e \<Rightarrow> Inl e
                 | Inr yf \<Rightarrow> Inr (c3\<lparr>mYf := yf\<rparr>, hw1)))"

definition CheckTouch :: "touch_control_t option \<Rightarrow> touch_hw \<Rightarrow> fault + int \<times> touch_control_t option \<times> touch_hw" where
  "CheckTouch pcontrol hw =
     (case pcontrol of
        None \<Rightarrow> Inr (- 1, None, hw)
      | Some c \<Rightarrow>
          (case mpHWConfig c of
             None \<Rightarrow> Inr (- 2, Some c, hw)
           | Some cfg \<Rightarrow>
               if 0 < sint (mkBetaShft c) then
                 (let kb_ispressed = gpio_get hw (mGPIO_ispressed cfg) in
                  if \<not> kb_ispressed then
                    (let klo = timelr hw;
                         khi = timehr hw;
                         ktm64_now = (push_bit 32 (ucast khi) OR ucast klo :: 64 word);
                         (c1, hw1) =
                           (if ktm64_now - mTmOfLastTouch c > scast (mkTmLongFlick c)
                            then long_flick_branch ktm64_now c hw else (c, hw))
                     in if ktm64_now - mTmOfLastTouch c1 > scast (mkTmMinFlick c1)
                        then (case min_flick_branch ktm64_now c1 hw1 of
                                Inl e \<Rightarrow> Inl e
                              | Inr (c2, hw2) \<Rightarrow> Inr (0, Some c2, hw2))
                        else Inr (0, Some c1, hw1))
                  else Inr (1, Some c, hw))
               else Inr (- 2, Some c, hw)))"

text \<open>The time the source calls \<open>ktm64_now\<close>, and the elapsed time it compares.\<close>

definition tm64_now :: "touch_hw \<Rightarrow> 64 word" where
  "tm64_now hw = (push_bit 32 (ucast (timehr hw)) OR ucast (timelr hw))"

definition elapsed :: "touch_control_t \<Rightarrow> touch_hw \<Rightarrow> 64 word" where
  "elapsed c hw = tm64_now hw - mTmOfLastTouch c"

text \<open>The configuration the entry checks of \<open>CheckTouch\<close> accept.\<close>

definition config_valid :: "touch_control_t option \<Rightarrow> bool" where
  "config_valid pcontrol =
     (case pcontrol of None \<Rightarrow> False
      | Some c \<Rightarrow> mpHWConfig c \<noteq> None \<and> 0 < sint (mkBetaShft c))"

subsection \<open>The update on the integers\<close>

text \<open>
  For the statements about convergence: the same update on the mathematical integers,
  where nothing wraps, and \<open>n\<close> of them in a row. The 32-bit update agrees with it as
  long as the intermediate values fit into 32 bits, which is what \<open>filter_fits\<close> says:
  \<open>raw << 14\<close>, the difference to the filtered value, and the difference with the
  rounding term added.
\<close>

definition ideal_update :: "int \<Rightarrow> int \<Rightarrow> int \<Rightarrow> int" where
  "ideal_update beta raw f =
     f + drop_bit (nat beta) (push_bit 14 raw - f + push_bit (nat (beta - 1)) 1)"

fun ideal_run :: "int \<Rightarrow> int \<Rightarrow> nat \<Rightarrow> int \<Rightarrow> int" where
  "ideal_run beta raw 0 f = f"
| "ideal_run beta raw (Suc n) f = ideal_run beta raw n (ideal_update beta raw f)"

definition filter_fits :: "32 word \<Rightarrow> 32 word \<Rightarrow> 32 word \<Rightarrow> bool" where
  "filter_fits beta raw f \<longleftrightarrow>
     - (2 ^ 31) \<le> push_bit 14 (sint raw) \<and> push_bit 14 (sint raw) < 2 ^ 31
   \<and> - (2 ^ 31) \<le> push_bit 14 (sint raw) - sint f
   \<and> push_bit 14 (sint raw) - sint f + 2 ^ (nat (sint beta) - 1) < 2 ^ 31"

text \<open>
  The dead band of the rounded update: the filtered value is within half a quantum
  \<open>2 ^ (beta - 1)\<close> of the target \<open>raw << 14\<close>.
\<close>

definition settled :: "int \<Rightarrow> int \<Rightarrow> int \<Rightarrow> bool" where
  "settled beta raw f \<longleftrightarrow>
     - (2 ^ (nat beta - 1)) \<le> push_bit 14 raw - f \<and> push_bit 14 raw - f < 2 ^ (nat beta - 1)"

text \<open>
  How far the filtered value is outside the dead band, and what one update does to that
  distance \<open>d\<close> for \<open>B = 2 ^ beta\<close>: it takes away \<open>d / B\<close>, rounded up.
\<close>

definition band_dist :: "int \<Rightarrow> int \<Rightarrow> int \<Rightarrow> int" where
  "band_dist beta raw f =
     (let e = push_bit 14 raw - f; r = 2 ^ (nat beta - 1)
      in if r \<le> e then e - r + 1 else if e < - r then - r - e else 0)"

definition dist_step :: "int \<Rightarrow> int \<Rightarrow> int" where
  "dist_step B d = d - (d + B - 1) div B"

subsection \<open>Concrete runs\<close>

text \<open>
  A control block and hardware answers for concrete runs, with the parameters the demo
  program passes to \<open>TouchInitHW\<close> and \<open>TouchInitCtl\<close> (pins 12, 13, 10, 11, 15;
  min flick 1000 us, long press 50000 us, beta 5). The touch controller answers 100 for
  X and 50 for Y.
\<close>

definition demo_hwconfig :: touch_hwconfig_t where
  "demo_hwconfig = \<lparr>mGPIO_miso = 12, mGPIO_cs = 13, mGPIO_sck = 10, mGPIO_mosi = 11,
                     mGPIO_ispressed = 15\<rparr>"

definition demo_control :: touch_control_t where
  "demo_control = \<lparr>mpHWConfig = Some demo_hwconfig, mIsPressed = False, mTmOfLastTouch = 0,
                    mIsProcessed = True, mX = 0, mY = 0, mXf = 0, mYf = 0,
                    mkTmMinFlick = 1000, mkTmLongFlick = 50000, mkBetaShft = 5\<rparr>"

definition demo_hw :: "bool \<Rightarrow> 32 word \<Rightarrow> touch_hw" where
  "demo_hw level t = \<lparr>gpio_get = (\<lambda>pin. level), timelr = t, timehr = 0,
                       spi_rx = (\<lambda>k. if even k then 100 else 50), spi_pos = 0\<rparr>"

section \<open>Screen buffer (ili9341.c)\<close>

text \<open>
  The geometry of \<open>ili9341hw.h\<close>. The pixel plane is an array of 32-bit words, the
  colour plane an array of bytes, one per 8x8 block:
  \<open>Flash|Changed|Pap2|Pap1|Pap0|Ink2|Ink1|Ink0\<close>. Bit 6 is the dirty flag.
\<close>

definition PIX_WIDTH :: nat where "PIX_WIDTH = 240"
definition PIX_HEIGHT :: nat where "PIX_HEIGHT = 320"
definition PIX_BITCOUNT :: nat where "PIX_BITCOUNT = PIX_WIDTH * PIX_HEIGHT"
definition PIX_W32COUNT :: nat where "PIX_W32COUNT = PIX_BITCOUNT div 32"
definition PIX_BYTE_STRIDE :: nat where "PIX_BYTE_STRIDE = PIX_WIDTH div 8"
definition TEXT_HEIGHT :: nat where "TEXT_HEIGHT = PIX_HEIGHT div 8"
definition TEXT_WIDTH :: nat where "TEXT_WIDTH = PIX_WIDTH div 8"
definition TEXT_CHARCOUNT :: nat where "TEXT_CHARCOUNT = TEXT_HEIGHT * TEXT_WIDTH"

datatype color_t = kBlack | kBlue | kRed | kMagenta | kGreen | kCyan | kYellow | kWhite

fun color_index :: "color_t \<Rightarrow> nat" where
  "color_index kBlack = 0"
| "color_index kBlue = 1"
| "color_index kRed = 2"
| "color_index kMagenta = 3"
| "color_index kGreen = 4"
| "color_index kCyan = 5"
| "color_index kYellow = 6"
| "color_index kWhite = 7"

definition spPalette :: "16 word list" where
  "spPalette = [0x0000, 0x1F00, 0x00F8, 0x1FF8, 0xE007, 0xFF07, 0xE0FF, 0xFFFF]"

text \<open>
  What \<open>ILI9341_SetOutWriting\<close> and the SPI writes of pixel data send to the display:
  the window (start column, end column, start page, end page), then rows of 16-bit
  colours.
\<close>

datatype tft_out = OutWindow nat nat nat nat | OutData "16 word list"

text \<open>
  \<open>screen_control_t\<close>. The field \<open>spi_tx\<close> stands for the device behind
  \<open>mpHWConfig\<close>: everything written to it so far.
\<close>

record screen_control_t =
  spi_tx :: "tft_out list"
  mCursorX :: int
  mCursorY :: int
  mCanvasPaper :: color_t
  mCanvasInk :: color_t
  mpPixBuffer :: "32 word list"
  mpColorBuffer :: "8 word list"

text \<open>The two arrays have the sizes the structure declares.\<close>

definition screen_wf :: "screen_control_t \<Rightarrow> bool" where
  "screen_wf pscr \<longleftrightarrow>
     length (mpPixBuffer pscr) = PIX_W32COUNT \<and> length (mpColorBuffer pscr) = TEXT_CHARCOUNT"

text \<open>The bit macros: bit \<open>n\<close> of the plane is bit \<open>31 - n mod 32\<close> of word \<open>n div 32\<close>.\<close>

definition GET_DATA_BIT :: "32 word list \<Rightarrow> nat \<Rightarrow> bool" where
  "GET_DATA_BIT p n = bit (drop_bit (31 - n mod 32) (p ! (n div 32)) AND 1) 0"

definition SET_DATA_BIT :: "32 word list \<Rightarrow> nat \<Rightarrow> 32 word list" where
  "SET_DATA_BIT p n = p[n div 32 := p ! (n div 32) OR drop_bit (n mod 32) 0x80000000]"

definition CLR_DATA_BIT :: "32 word list \<Rightarrow> nat \<Rightarrow> 32 word list" where
  "CLR_DATA_BIT p n = p[n div 32 := p ! (n div 32) AND NOT (drop_bit (n mod 32) 0x80000000)]"

text \<open>The dirty flag, ink and paper of an attribute byte.\<close>

definition attr_dirty :: "8 word \<Rightarrow> bool" where
  "attr_dirty a = bit (drop_bit 6 a AND 1) 0"

definition attr_paper :: "8 word \<Rightarrow> nat" where
  "attr_paper a = unat (drop_bit 3 a AND 7)"

definition attr_ink :: "8 word \<Rightarrow> nat" where
  "attr_ink a = unat (a AND 7)"

subsection \<open>Writing blocks to the display\<close>

text \<open>\<open>TftSymbolWrite\<close>: one 8x8 block goes out, then its dirty flag is cleared.\<close>

definition symbol_line :: "screen_control_t \<Rightarrow> nat \<Rightarrow> nat \<Rightarrow> nat \<Rightarrow> 16 word list" where
  "symbol_line pscr ink paper pix_line =
     map (\<lambda>i. if GET_DATA_BIT (mpPixBuffer pscr) (pix_line + i)
               then spPalette ! ink else spPalette ! paper) [0..<8]"

definition TftSymbolWrite :: "screen_control_t \<Rightarrow> nat \<Rightarrow> nat \<Rightarrow> screen_control_t" where
  "TftSymbolWrite pscr sym_x sym_y =
     (let pix_tl_x = push_bit 3 sym_x;
          pix_tl_y = push_bit 3 sym_y;
          box = sym_y * TEXT_WIDTH + sym_x;
          paper = attr_paper (mpColorBuffer pscr ! box);
          ink = attr_ink (mpColorBuffer pscr ! box);
          sent = OutWindow pix_tl_x (pix_tl_x + 7) pix_tl_y (pix_tl_y + 7)
                 # map (\<lambda>j. OutData (symbol_line pscr ink paper
                                         ((pix_tl_y + j) * PIX_WIDTH + pix_tl_x))) [0..<8]
      in pscr\<lparr>spi_tx := spi_tx pscr @ sent,
               mpColorBuffer := (mpColorBuffer pscr)[box := mpColorBuffer pscr ! box AND NOT (push_bit 6 1)]\<rparr>)"

text \<open>
  \<open>TftFullScreenSelectiveWrite\<close>. The inner loop over the columns of text row \<open>j\<close>
  returns whether the budget stopped it, the screen, and the remaining count;
  \<open>nblock_max\<close> is a C \<open>int\<close>, here a 32-bit word whose decrement wraps, and the test
  \<open>!--nblock_max\<close> is \<open>nblock_max - 1 = 0\<close>.
\<close>

function selective_row :: "screen_control_t \<Rightarrow> nat \<Rightarrow> nat \<Rightarrow> 32 word \<Rightarrow> bool \<times> screen_control_t \<times> 32 word" where
  "selective_row pscr j i nblock_max =
     (if i < TEXT_WIDTH then
        (if attr_dirty (mpColorBuffer pscr ! (j * TEXT_WIDTH + i)) then
           (if nblock_max - 1 = 0 then (True, TftSymbolWrite pscr i j, nblock_max - 1)
            else selective_row (TftSymbolWrite pscr i j) j (i + 1) (nblock_max - 1))
         else selective_row pscr j (i + 1) nblock_max)
      else (False, pscr, nblock_max))"
  by pat_completeness auto
termination
  by (relation "measure (\<lambda>(pscr, j, i, n). TEXT_WIDTH - i)") auto

function selective_rows :: "screen_control_t \<Rightarrow> nat \<Rightarrow> 32 word \<Rightarrow> int \<times> screen_control_t" where
  "selective_rows pscr j nblock_max =
     (if j < TEXT_HEIGHT then
        (case selective_row pscr j 0 nblock_max of
           (True, pscr', n') \<Rightarrow> (0, pscr')
         | (False, pscr', n') \<Rightarrow> selective_rows pscr' (j + 1) n')
      else (1, pscr))"
  by pat_completeness auto
termination
  by (relation "measure (\<lambda>(pscr, j, n). TEXT_HEIGHT - j)") auto

definition TftFullScreenSelectiveWrite :: "screen_control_t \<Rightarrow> 32 word \<Rightarrow> int \<times> screen_control_t" where
  "TftFullScreenSelectiveWrite pscr nblock_max = selective_rows pscr 0 nblock_max"

text \<open>
  For the statements about the flush: the dirty blocks in row-major order (block \<open>k\<close>
  is column \<open>k mod TEXT_WIDTH\<close> of text row \<open>k div TEXT_WIDTH\<close>), the blocks a budget
  lets through, and the effect of writing a list of blocks one after the other.
\<close>

definition dirty_blocks :: "screen_control_t \<Rightarrow> nat list" where
  "dirty_blocks pscr = filter (\<lambda>k. attr_dirty (mpColorBuffer pscr ! k)) [0..<TEXT_CHARCOUNT]"

definition budget :: "32 word \<Rightarrow> nat" where
  "budget nblock_max = (if nblock_max = 0 then 2 ^ 32 else unat nblock_max)"

abbreviation (input) sw :: "nat \<Rightarrow> screen_control_t \<Rightarrow> screen_control_t" where
  "sw k p \<equiv> TftSymbolWrite p (k mod TEXT_WIDTH) (k div TEXT_WIDTH)"

definition write_blocks :: "screen_control_t \<Rightarrow> nat list \<Rightarrow> screen_control_t" where
  "write_blocks pscr ks = fold sw ks pscr"

text \<open>
  What one block contributes to the transport: its window, then eight rows of eight
  colours, each pixel bit resolved through the block's ink or paper.
\<close>

definition block_out :: "screen_control_t \<Rightarrow> nat \<Rightarrow> tft_out list" where
  "block_out pscr k =
     (let x = 8 * (k mod TEXT_WIDTH); y = 8 * (k div TEXT_WIDTH); a = mpColorBuffer pscr ! k
      in OutWindow x (x + 7) y (y + 7)
         # map (\<lambda>j. OutData (map (\<lambda>i. spPalette !
                  (if GET_DATA_BIT (mpPixBuffer pscr) ((y + j) * PIX_WIDTH + x + i)
                   then attr_ink a else attr_paper a)) [0..<8])) [0..<8])"

text \<open>
  The two nested loops visit the blocks in the order of their index; \<open>scan_blocks\<close>
  is the same scan over an explicit list of block indices.
\<close>

fun scan_blocks :: "screen_control_t \<Rightarrow> nat list \<Rightarrow> 32 word \<Rightarrow> bool \<times> screen_control_t \<times> 32 word" where
  "scan_blocks pscr [] n = (False, pscr, n)"
| "scan_blocks pscr (k # ks) n =
     (if attr_dirty (mpColorBuffer pscr ! k) then
        (if n - 1 = 0 then (True, TftSymbolWrite pscr (k mod TEXT_WIDTH) (k div TEXT_WIDTH), n - 1)
         else scan_blocks (TftSymbolWrite pscr (k mod TEXT_WIDTH) (k div TEXT_WIDTH)) ks (n - 1))
      else scan_blocks pscr ks n)"

text \<open>
  Screens for concrete runs: the canvas colours the demo program sets (black paper,
  magenta ink), an empty pixel plane, every block red ink on black paper and clean.
\<close>

definition blank_screen :: screen_control_t where
  "blank_screen = \<lparr>spi_tx = [], mCursorX = 0, mCursorY = 0, mCanvasPaper = kBlack,
       mCanvasInk = kMagenta, mpPixBuffer = replicate PIX_W32COUNT 0,
       mpColorBuffer = replicate TEXT_CHARCOUNT 0x02\<rparr>"

text \<open>\<open>blank_screen\<close> with block 31 (column 1 of text row 1) marked dirty.\<close>

definition one_dirty_screen :: screen_control_t where
  "one_dirty_screen = blank_screen\<lparr>mpColorBuffer := (mpColorBuffer blank_screen)[31 := 0x42]\<rparr>"

text \<open>The screen right after \<open>TftClearScreenBuffer(kBlack, kRed)\<close>: every block dirty.\<close>

definition cleared_screen :: screen_control_t where
  "cleared_screen = blank_screen\<lparr>mpColorBuffer := replicate TEXT_CHARCOUNT 0x42\<rparr>"

section \<open>Drawing into the screen buffer (ili9341.c)\<close>

text \<open>
  Coordinates are C \<open>int\<close>s, here \<open>int\<close>. A store or load outside the two arrays is
  the result \<open>Inl OutOfBounds\<close>, a failed \<open>assert_\<close> the result \<open>Inl AssertFailed\<close>.
\<close>

definition set_pixel_bit :: "screen_control_t \<Rightarrow> int \<Rightarrow> fault + screen_control_t" where
  "set_pixel_bit pscr n =
     (if 0 \<le> n \<and> nat n div 32 < length (mpPixBuffer pscr)
      then Inr (pscr\<lparr>mpPixBuffer := SET_DATA_BIT (mpPixBuffer pscr) (nat n)\<rparr>)
      else Inl OutOfBounds)"

definition store_pix_word :: "screen_control_t \<Rightarrow> int \<Rightarrow> 32 word \<Rightarrow> fault + screen_control_t" where
  "store_pix_word pscr i v =
     (if 0 \<le> i \<and> nat i < length (mpPixBuffer pscr)
      then Inr (pscr\<lparr>mpPixBuffer := (mpPixBuffer pscr)[nat i := v]\<rparr>)
      else Inl OutOfBounds)"

text \<open>\<open>mpColorBuffer[i] |= 1 << 6\<close>.\<close>

definition mark_changed :: "screen_control_t \<Rightarrow> int \<Rightarrow> fault + screen_control_t" where
  "mark_changed pscr i =
     (if 0 \<le> i \<and> nat i < length (mpColorBuffer pscr)
      then Inr (pscr\<lparr>mpColorBuffer :=
                  (mpColorBuffer pscr)[nat i := mpColorBuffer pscr ! nat i OR push_bit 6 1]\<rparr>)
      else Inl OutOfBounds)"

text \<open>\<open>TftPutColorAttr\<close>: keep the two top bits, set ink, paper and the dirty flag.\<close>

definition TftPutColorAttr :: "screen_control_t \<Rightarrow> int \<Rightarrow> int \<Rightarrow> int \<Rightarrow> int \<Rightarrow> fault + screen_control_t" where
  "TftPutColorAttr pscr x y paper ink =
     (let box = x + int TEXT_WIDTH * y in
      if 0 \<le> box \<and> nat box < length (mpColorBuffer pscr)
      then Inr (pscr\<lparr>mpColorBuffer := (mpColorBuffer pscr)[nat box :=
                  (((mpColorBuffer pscr ! nat box AND 0xC0)
                     OR (word_of_int ink AND 7))
                     OR push_bit 3 (word_of_int paper AND 7))
                     OR push_bit 6 1]\<rparr>)
      else Inl OutOfBounds)"

text \<open>\<open>TftPutPixel\<close>, with its bounds test as written.\<close>

definition TftPutPixel :: "screen_control_t \<Rightarrow> int \<Rightarrow> int \<Rightarrow> color_t \<Rightarrow> color_t \<Rightarrow> fault + screen_control_t" where
  "TftPutPixel pscr x y paper ink =
     (if x < 0 \<or> y < 0 \<or> x > int PIX_WIDTH - 1 \<or> y > int PIX_HEIGHT - 1 then Inr pscr
      else (case set_pixel_bit pscr (x + y * int PIX_WIDTH) of
              Inl f \<Rightarrow> Inl f
            | Inr p1 \<Rightarrow> TftPutColorAttr p1 (drop_bit 3 x) (drop_bit 3 y)
                          (int (color_index paper)) (int (color_index ink))))"

text \<open>
  \<open>TftPutLine\<close>. C's \<open>/\<close> truncates towards zero. The loop runs at most \<open>cnt = 1000\<close>
  times; each round plots the current point, then moves.
\<close>

definition c_div2 :: "int \<Rightarrow> int" where
  "c_div2 k = (if k < 0 then - ((- k) div 2) else k div 2)"

definition plot_point :: "screen_control_t \<Rightarrow> int \<Rightarrow> int \<Rightarrow> fault + screen_control_t" where
  "plot_point pscr x0 y0 =
     (case set_pixel_bit pscr (x0 + y0 * int PIX_WIDTH) of
        Inl f \<Rightarrow> Inl f
      | Inr p1 \<Rightarrow> mark_changed p1 (drop_bit 3 x0 + drop_bit 3 y0 * int TEXT_WIDTH))"

fun put_line_loop :: "nat \<Rightarrow> screen_control_t \<Rightarrow> int \<Rightarrow> int \<Rightarrow> int \<Rightarrow> int \<Rightarrow> int \<Rightarrow> int
                       \<Rightarrow> int \<Rightarrow> int \<Rightarrow> int \<Rightarrow> fault + screen_control_t" where
  "put_line_loop 0 pscr x0 y0 x1 y1 sx sy dx dy err = Inr pscr"
| "put_line_loop (Suc cnt) pscr x0 y0 x1 y1 sx sy dx dy err =
     (case plot_point pscr x0 y0 of
        Inl f \<Rightarrow> Inl f
      | Inr p1 \<Rightarrow>
          if x0 = x1 \<and> y0 = y1 then Inr p1
          else
            (let e2 = err;
                 err1 = (if e2 > - dx then err - dy else err);
                 x0' = (if e2 > - dx then x0 + sx else x0);
                 err2 = (if e2 < dy then err1 + dx else err1);
                 y0' = (if e2 < dy then y0 + sy else y0)
             in put_line_loop cnt p1 x0' y0' x1 y1 sx sy dx dy err2))"

definition TftPutLine :: "screen_control_t \<Rightarrow> int \<Rightarrow> int \<Rightarrow> int \<Rightarrow> int \<Rightarrow> fault + screen_control_t" where
  "TftPutLine pscr x0 y0 x1 y1 =
     (if x0 < 0 \<or> y0 < 0 \<or> x1 < 0 \<or> y1 < 0 then Inr pscr
      else if x0 > int PIX_WIDTH \<or> y0 > int PIX_HEIGHT \<or> x1 > int PIX_WIDTH \<or> y1 > int PIX_HEIGHT
      then Inr pscr
      else
        (let sx = (if x0 < x1 then 1 else - 1);
             sy = (if y0 < y1 then 1 else - 1);
             dx = (if x1 > x0 then x1 - x0 else x0 - x1);
             dy = (if y1 > y0 then y1 - y0 else y0 - y1);
             err = c_div2 (if dx > dy then dx else - dy)
         in put_line_loop 1000 pscr x0 y0 x1 y1 sx sy dx dy err))"

text \<open>
  \<open>TftClearRect8\<close>: for each of the eight pixel rows of block \<open>(x, y)\<close> the whole
  32-bit word holding the first pixel of the row is set to zero; then the block is
  marked dirty.
\<close>

fun clear_rect_rows :: "nat list \<Rightarrow> int \<Rightarrow> int \<Rightarrow> screen_control_t \<Rightarrow> fault + screen_control_t" where
  "clear_rect_rows [] x y pscr = Inr pscr"
| "clear_rect_rows (j # js) x y pscr =
     (let shft = push_bit 3 x + (int j + push_bit 3 y) * int PIX_WIDTH in
      case store_pix_word pscr (drop_bit 5 shft) 0 of
        Inl f \<Rightarrow> Inl f
      | Inr p1 \<Rightarrow> clear_rect_rows js x y p1)"

definition TftClearRect8 :: "screen_control_t \<Rightarrow> int \<Rightarrow> int \<Rightarrow> fault + screen_control_t" where
  "TftClearRect8 pscr x y =
     (case clear_rect_rows [0..<8] x y pscr of
        Inl f \<Rightarrow> Inl f
      | Inr p1 \<Rightarrow> mark_changed p1 (x + int TEXT_WIDTH * y))"

text \<open>
  \<open>TftScrollVerticalZone\<close>. \<open>memmove\<close> and \<open>memset\<close> on a list, for ranges inside
  it. The pixel plane is moved in bytes by the source; every offset and length there is
  a multiple of \<open>8 * PIX_BYTE_STRIDE = 240\<close> bytes, that is of 60 words, so the same move
  is made here on the words. The ranges the routine reads and writes are compared with
  the two arrays: the source of the pixel move, the cleared text row behind its
  destination, and the source of the attribute move, which is \<open>kscroll_area_height\<close>
  text rows starting one row below \<open>top_y\<close> and so ends one text row below \<open>bot_y\<close>.
  A zone of height 0 gives a negative byte count, which \<open>memmove\<close> takes as a huge
  unsigned one.
\<close>

definition memmove_list :: "'a list \<Rightarrow> nat \<Rightarrow> nat \<Rightarrow> nat \<Rightarrow> 'a list" where
  "memmove_list mem dst src n = take dst mem @ take n (drop src mem) @ drop (dst + n) mem"

definition memset_list :: "'a list \<Rightarrow> nat \<Rightarrow> 'a \<Rightarrow> nat \<Rightarrow> 'a list" where
  "memset_list mem dst v n = take dst mem @ replicate n v @ drop (dst + n) mem"

definition TftScrollVerticalZone :: "screen_control_t \<Rightarrow> int \<Rightarrow> int \<Rightarrow> fault + screen_control_t" where
  "TftScrollVerticalZone pscr top_y bot_y =
     (if \<not> top_y \<le> bot_y then Inl AssertFailed
      else if top_y < 0 \<or> bot_y - top_y - 1 < 0 then Inl OutOfBounds
      else
        (let kscroll_area_height = nat (bot_y - top_y);
             kscroll_area_words = (push_bit 3 (kscroll_area_height - 1) * PIX_BYTE_STRIDE) div 4;
             pixdest = (nat top_y * TEXT_WIDTH * 8) div 4;
             pixsrc = pixdest + (PIX_BYTE_STRIDE * 8) div 4;
             kscroll_attr_bytes = kscroll_area_height * TEXT_WIDTH;
             attrdest = nat top_y * TEXT_WIDTH;
             attrsrc = attrdest + TEXT_WIDTH
         in if length (mpPixBuffer pscr) < pixsrc + kscroll_area_words
               \<or> length (mpPixBuffer pscr) < pixdest + kscroll_area_words + (8 * PIX_BYTE_STRIDE) div 4
               \<or> length (mpColorBuffer pscr) < attrsrc + kscroll_attr_bytes
            then Inl OutOfBounds
            else
              (let pix1 = memmove_list (mpPixBuffer pscr) pixdest pixsrc kscroll_area_words;
                   pix2 = memset_list pix1 (pixdest + kscroll_area_words) 0 ((8 * PIX_BYTE_STRIDE) div 4);
                   attr1 = memmove_list (mpColorBuffer pscr) attrdest attrsrc kscroll_attr_bytes;
                   attr2 = fold (\<lambda>j cb. cb[j := cb ! j OR push_bit 6 1])
                             [nat top_y * TEXT_WIDTH ..< nat bot_y * TEXT_WIDTH] attr1
               in Inr (pscr\<lparr>mpPixBuffer := pix2, mpColorBuffer := attr2\<rparr>))))"

text \<open>
  The two arrays after a scroll of text rows \<open>[t, b)\<close>, with the offsets of the
  source evaluated for \<open>PIX_WIDTH = 240\<close>: 60 words and 30 attribute bytes per text
  row.
\<close>

definition scroll_pix :: "32 word list \<Rightarrow> nat \<Rightarrow> nat \<Rightarrow> 32 word list" where
  "scroll_pix pix t b =
     memset_list (memmove_list pix (t * 60) (t * 60 + 60) ((b - t - 1) * 60)) ((b - 1) * 60) 0 60"

definition scroll_attr :: "8 word list \<Rightarrow> nat \<Rightarrow> nat \<Rightarrow> 8 word list" where
  "scroll_attr cb t b =
     fold (\<lambda>j cb. cb[j := cb ! j OR push_bit 6 1]) [t * 30 ..< b * 30]
       (memmove_list cb (t * 30) (t * 30 + 30) ((b - t) * 30))"

text \<open>A screen with the single pixel (8, 0) set and every block clean.\<close>

definition pixel8_screen :: screen_control_t where
  "pixel8_screen = blank_screen\<lparr>mpPixBuffer := SET_DATA_BIT (mpPixBuffer blank_screen) 8\<rparr>"

text \<open>
  The freshly cleared screen (every block red on black, dirty) with one block below
  text row 7 drawn on: block (0, 8), index 240, is yellow ink on blue paper and clean,
  and its top left pixel (0, 64) is set.
\<close>

definition banner_screen :: screen_control_t where
  "banner_screen = cleared_screen\<lparr>mpPixBuffer := SET_DATA_BIT (mpPixBuffer cleared_screen) (64 * PIX_WIDTH),
                                   mpColorBuffer := (mpColorBuffer cleared_screen)[240 := 0x0E]\<rparr>"

section \<open>Calibration (msp2807\_calibration.c)\<close>

text \<open>
  The source computes in \<open>float\<close>. The model is written over an arbitrary carrier
  \<open>'f\<close> with the operations the source uses, so that what is proved about the control
  flow holds for binary32 as for any other arithmetic: conversion from an integer,
  the four operations, the test \<open>fabs(x) < 1e-9\<close>, the constant \<open>.5f\<close> and the cast
  \<open>(int16_t)\<close>. \<open>.0f\<close> is \<open>f_of_int 0\<close> and \<open>1.f\<close> is \<open>f_of_int 1\<close>.
\<close>

record 'f float_ops =
  f_of_int :: "int \<Rightarrow> 'f"
  f_add :: "'f \<Rightarrow> 'f \<Rightarrow> 'f"
  f_sub :: "'f \<Rightarrow> 'f \<Rightarrow> 'f"
  f_mul :: "'f \<Rightarrow> 'f \<Rightarrow> 'f"
  f_div :: "'f \<Rightarrow> 'f \<Rightarrow> 'f"
  f_small :: "'f \<Rightarrow> bool"
  f_half :: "'f"
  f_to_int16 :: "'f \<Rightarrow> int"

record 'f calibration_mat_t =
  KX1 :: 'f
  KX2 :: 'f
  KX3 :: 'f
  KY1 :: 'f
  KY2 :: 'f
  KY3 :: 'f

text \<open>
  \<open>TouchTransformCoords\<close>. The two pointers are taken to be distinct; the pair is
  \<open>(*Px, *Py)\<close>. The first assignment stores the new \<open>*Px\<close>, the second reads it.
\<close>

definition TouchTransformCoords :: "'f float_ops \<Rightarrow> 'f calibration_mat_t \<Rightarrow> int \<times> int \<Rightarrow> int \<times> int" where
  "TouchTransformCoords ops pcmat P =
     (let d1024 = f_div ops (f_of_int ops 1) (f_of_int ops 1024);
          Px = fst P;
          Py = snd P;
          Px = f_to_int16 ops
                 (f_add ops
                    (f_add ops
                       (f_add ops (f_mul ops (f_mul ops d1024 (KX1 pcmat)) (f_of_int ops Px))
                                  (f_mul ops (f_mul ops d1024 (KX2 pcmat)) (f_of_int ops Py)))
                       (KX3 pcmat))
                    (f_half ops));
          Py = f_to_int16 ops
                 (f_add ops
                    (f_add ops
                       (f_add ops (f_mul ops (f_mul ops d1024 (KY1 pcmat)) (f_of_int ops Px))
                                  (f_mul ops (f_mul ops d1024 (KY2 pcmat)) (f_of_int ops Py)))
                       (KY3 pcmat))
                    (f_half ops))
      in (Px, Py))"

text \<open>
  \<open>CalculateCalibrationMat\<close>. The two input arrays are read through their pointers:
  \<open>pSamplePoint k\<close> is the \<open>int16_t\<close> at index \<open>k\<close>. The local arrays
  \<open>a, b, c, d\<close> are lists of length 3.
\<close>

definition exact_fill :: "'f float_ops \<Rightarrow> (nat \<Rightarrow> int) \<Rightarrow> (nat \<Rightarrow> int) \<Rightarrow> nat
                           \<Rightarrow> 'f list \<times> 'f list \<times> 'f list \<times> 'f list
                           \<Rightarrow> 'f list \<times> 'f list \<times> 'f list \<times> 'f list" where
  "exact_fill ops pReferencePoint pSamplePoint i abcd =
     (let (a, b, c, d) = abcd;
          ixl = push_bit 1 i
      in (a[i := f_of_int ops (pSamplePoint (ixl + 0))],
          b[i := f_of_int ops (pSamplePoint (ixl + 1))],
          c[i := f_of_int ops (pReferencePoint (ixl + 0))],
          d[i := f_of_int ops (pReferencePoint (ixl + 1))]))"

definition accumulate :: "'f float_ops \<Rightarrow> (nat \<Rightarrow> int) \<Rightarrow> (nat \<Rightarrow> int) \<Rightarrow> nat
                           \<Rightarrow> 'f list \<times> 'f list \<times> 'f list \<times> 'f list
                           \<Rightarrow> 'f list \<times> 'f list \<times> 'f list \<times> 'f list" where
  "accumulate ops pReferencePoint pSamplePoint i abcd =
     (let (a, b, c, d) = abcd;
          ixl = push_bit 1 i;
          sx = f_of_int ops (pSamplePoint (ixl + 0));
          sy = f_of_int ops (pSamplePoint (ixl + 1));
          rx = f_of_int ops (pReferencePoint (ixl + 0));
          ry = f_of_int ops (pReferencePoint (ixl + 1));
          a = a[2 := f_add ops (a ! 2) sx];
          b = b[2 := f_add ops (b ! 2) sy];
          c = c[2 := f_add ops (c ! 2) rx];
          d = d[2 := f_add ops (d ! 2) ry];
          a = a[0 := f_add ops (a ! 0) (f_mul ops sx sx)];
          a = a[1 := f_add ops (a ! 1) (f_mul ops sx sy)];
          b = b[0 := a ! 1];
          b = b[1 := f_add ops (b ! 1) (f_mul ops sy sy)];
          c = c[0 := f_add ops (c ! 0) (f_mul ops sx rx)];
          c = c[1 := f_add ops (c ! 1) (f_mul ops sy rx)];
          d = d[0 := f_add ops (d ! 0) (f_mul ops sx ry)];
          d = d[1 := f_add ops (d ! 1) (f_mul ops sy ry)]
      in (a, b, c, d))"

definition normalize :: "'f float_ops \<Rightarrow> 'f \<Rightarrow> 'f list \<times> 'f list \<times> 'f list \<times> 'f list
                           \<Rightarrow> 'f list \<times> 'f list \<times> 'f list \<times> 'f list" where
  "normalize ops fnpointsM1 abcd =
     (let (a, b, c, d) = abcd;
          a = a[0 := f_div ops (a ! 0) (a ! 2)];
          a = a[1 := f_div ops (a ! 1) (b ! 2)];
          b = b[0 := f_div ops (b ! 0) (a ! 2)];
          b = b[1 := f_div ops (b ! 1) (b ! 2)];
          c = c[0 := f_div ops (c ! 0) (a ! 2)];
          c = c[1 := f_div ops (c ! 1) (b ! 2)];
          d = d[0 := f_div ops (d ! 0) (a ! 2)];
          d = d[1 := f_div ops (d ! 1) (b ! 2)];
          a = a[2 := f_mul ops (a ! 2) fnpointsM1];
          b = b[2 := f_mul ops (b ! 2) fnpointsM1];
          c = c[2 := f_mul ops (c ! 2) fnpointsM1];
          d = d[2 := f_mul ops (d ! 2) fnpointsM1]
      in (a, b, c, d))"

text \<open>The determinant \<open>k\<close> and the six coefficients, as the source writes them.\<close>

definition calib_k :: "'f float_ops \<Rightarrow> 'f list \<times> 'f list \<times> 'f list \<times> 'f list \<Rightarrow> 'f" where
  "calib_k ops abcd =
     (let (a, b, c, d) = abcd in
      f_sub ops (f_mul ops (f_sub ops (a ! 0) (a ! 2)) (f_sub ops (b ! 1) (b ! 2)))
                (f_mul ops (f_sub ops (a ! 1) (a ! 2)) (f_sub ops (b ! 0) (b ! 2))))"

definition calib_lin1 :: "'f float_ops \<Rightarrow> 'f list \<Rightarrow> 'f list \<Rightarrow> 'f list \<Rightarrow> 'f \<Rightarrow> 'f" where
  "calib_lin1 ops a b c kM1 =
     f_mul ops
       (f_sub ops (f_mul ops (f_sub ops (c ! 0) (c ! 2)) (f_sub ops (b ! 1) (b ! 2)))
                  (f_mul ops (f_sub ops (c ! 1) (c ! 2)) (f_sub ops (b ! 0) (b ! 2))))
       kM1"

definition calib_lin2 :: "'f float_ops \<Rightarrow> 'f list \<Rightarrow> 'f list \<Rightarrow> 'f list \<Rightarrow> 'f \<Rightarrow> 'f" where
  "calib_lin2 ops a b c kM1 =
     f_mul ops
       (f_sub ops (f_mul ops (f_sub ops (c ! 1) (c ! 2)) (f_sub ops (a ! 0) (a ! 2)))
                  (f_mul ops (f_sub ops (c ! 0) (c ! 2)) (f_sub ops (a ! 1) (a ! 2))))
       kM1"

definition calib_off :: "'f float_ops \<Rightarrow> 'f list \<Rightarrow> 'f list \<Rightarrow> 'f list \<Rightarrow> 'f \<Rightarrow> 'f" where
  "calib_off ops a b c kM1 =
     f_mul ops
       (f_add ops
          (f_add ops
             (f_mul ops (b ! 0) (f_sub ops (f_mul ops (a ! 2) (c ! 1)) (f_mul ops (a ! 1) (c ! 2))))
             (f_mul ops (b ! 1) (f_sub ops (f_mul ops (a ! 0) (c ! 2)) (f_mul ops (a ! 2) (c ! 0)))))
          (f_mul ops (b ! 2) (f_sub ops (f_mul ops (a ! 1) (c ! 0)) (f_mul ops (a ! 0) (c ! 1)))))
       kM1"

definition solve_mat :: "'f float_ops \<Rightarrow> 'f list \<times> 'f list \<times> 'f list \<times> 'f list \<Rightarrow> int
                          \<Rightarrow> 'f calibration_mat_t \<Rightarrow> int \<times> 'f calibration_mat_t" where
  "solve_mat ops abcd npoints pcmat =
     (let (a, b, c, d) = abcd;
          k = calib_k ops abcd
      in if f_small ops k then (- 3, pcmat)
         else
           (let kM1 = f_div ops (f_of_int ops 1) k
            in (npoints,
                pcmat\<lparr>KX1 := calib_lin1 ops a b c kM1, KX2 := calib_lin2 ops a b c kM1,
                       KX3 := calib_off ops a b c kM1,
                       KY1 := calib_lin1 ops a b d kM1, KY2 := calib_lin2 ops a b d kM1,
                       KY3 := calib_off ops a b d kM1\<rparr>)))"

text \<open>The sums the pass over more than three points leaves in \<open>a, b, c, d\<close>.\<close>

definition accumulated :: "'f float_ops \<Rightarrow> (nat \<Rightarrow> int) \<Rightarrow> (nat \<Rightarrow> int) \<Rightarrow> int
                            \<Rightarrow> 'f list \<times> 'f list \<times> 'f list \<times> 'f list" where
  "accumulated ops pReferencePoint pSamplePoint npoints =
     (let z = replicate 3 (f_of_int ops 0)
      in fold (accumulate ops pReferencePoint pSamplePoint) [0..<nat npoints] (z, z, z, z))"

definition CalculateCalibrationMat :: "'f float_ops \<Rightarrow> (nat \<Rightarrow> int) \<Rightarrow> (nat \<Rightarrow> int) \<Rightarrow> int
                          \<Rightarrow> 'f calibration_mat_t \<Rightarrow> int \<times> 'f calibration_mat_t" where
  "CalculateCalibrationMat ops pReferencePoint pSamplePoint npoints pcmat =
     (if npoints < 3 then (- 1, pcmat)
      else
        (let fnpointsM1 = f_div ops (f_of_int ops 1) (f_of_int ops npoints) in
         if 3 = npoints then
           (let u = replicate 3 (f_of_int ops 0);
                abcd = fold (exact_fill ops pReferencePoint pSamplePoint) [0..<nat npoints] (u, u, u, u)
            in solve_mat ops abcd npoints pcmat)
         else
           (let abcd = accumulated ops pReferencePoint pSamplePoint npoints;
                (a, b, c, d) = abcd
            in if f_small ops (a ! 2) \<or> f_small ops (b ! 2) then (- 2, pcmat)
               else solve_mat ops (normalize ops fnpointsM1 abcd) npoints pcmat)))"

text \<open>The arrays the determinant test sees, for at least three points.\<close>

definition solver_input :: "'f float_ops \<Rightarrow> (nat \<Rightarrow> int) \<Rightarrow> (nat \<Rightarrow> int) \<Rightarrow> int
                            \<Rightarrow> 'f list \<times> 'f list \<times> 'f list \<times> 'f list" where
  "solver_input ops pReferencePoint pSamplePoint npoints =
     (if 3 = npoints then
        (let u = replicate 3 (f_of_int ops 0)
         in fold (exact_fill ops pReferencePoint pSamplePoint) [0..<nat npoints] (u, u, u, u))
      else normalize ops (f_div ops (f_of_int ops 1) (f_of_int ops npoints))
             (accumulated ops pReferencePoint pSamplePoint npoints))"

text \<open>
  For the statements: the plain sum and the sum of squares of every second entry of an
  array, accumulated from \<open>.0f\<close> in index order as the loop does.
\<close>

definition plain_sum :: "'f float_ops \<Rightarrow> (nat \<Rightarrow> int) \<Rightarrow> nat \<Rightarrow> nat \<Rightarrow> 'f" where
  "plain_sum ops p off n =
     fold (\<lambda>i s. f_add ops s (f_of_int ops (p (2 * i + off)))) [0..<n] (f_of_int ops 0)"

definition square_sum :: "'f float_ops \<Rightarrow> (nat \<Rightarrow> int) \<Rightarrow> nat \<Rightarrow> nat \<Rightarrow> 'f" where
  "square_sum ops p off n =
     fold (\<lambda>i s. f_add ops s (f_mul ops (f_of_int ops (p (2 * i + off)))
                                        (f_of_int ops (p (2 * i + off))))) [0..<n] (f_of_int ops 0)"

text \<open>
  For the statement about the sums of squares: an arithmetic is a rounded one when
  every value stands for a real number, converting an integer, adding and multiplying
  return the rounding of the exact result, the rounding is monotone and keeps 0, 1 and
  -1, and the test \<open>fabs(x) < 1e-9\<close> is made on that number. Exact arithmetic is of
  this kind, and so is binary32 on values that do not overflow.
\<close>

definition rounded_arith :: "'f float_ops \<Rightarrow> ('f \<Rightarrow> real) \<Rightarrow> (real \<Rightarrow> real) \<Rightarrow> bool" where
  "rounded_arith ops val rnd \<longleftrightarrow>
     mono rnd \<and> rnd 0 = 0 \<and> rnd 1 = 1 \<and> rnd (- 1) = - 1
   \<and> (\<forall>i. val (f_of_int ops i) = rnd (of_int i))
   \<and> (\<forall>x y. val (f_add ops x y) = rnd (val x + val y))
   \<and> (\<forall>x y. val (f_mul ops x y) = rnd (val x * val y))
   \<and> (\<forall>x. f_small ops x \<longleftrightarrow> \<bar>val x\<bar> < 1 / 10 ^ 9)"

text \<open>
  Exact arithmetic on the reals as one instance, for concrete runs whose intermediate
  values are all small integers or halves, which binary32 represents exactly. The cast
  truncates towards zero and keeps 16 bits.
\<close>

definition exact_ops :: "real float_ops" where
  "exact_ops = \<lparr>f_of_int = of_int, f_add = (+), f_sub = (-), f_mul = (*), f_div = (/),
                 f_small = (\<lambda>x. \<bar>x\<bar> < 1 / 10 ^ 9), f_half = 1 / 2,
                 f_to_int16 = (\<lambda>x. signed_take_bit 15 (if x < 0 then \<lceil>x\<rceil> else \<lfloor>x\<rfloor>))\<rparr>"

definition points :: "int list \<Rightarrow> nat \<Rightarrow> int" where
  "points xs k = (if k < length xs then xs ! k else 0)"

definition zero_mat :: "real calibration_mat_t" where
  "zero_mat = \<lparr>KX1 = 0, KX2 = 0, KX3 = 0, KY1 = 0, KY2 = 0, KY3 = 0\<rparr>"

text \<open>
  The transform as the specification words it, on exact reals: each output is the
  rounded affine image of the original pair.
\<close>

definition affine_by_spec :: "real calibration_mat_t \<Rightarrow> int \<times> int \<Rightarrow> int \<times> int" where
  "affine_by_spec pcmat P =
     (round (KX1 pcmat * of_int (fst P) / 1024 + KX2 pcmat * of_int (snd P) / 1024 + KX3 pcmat),
      round (KY1 pcmat * of_int (fst P) / 1024 + KY2 pcmat * of_int (snd P) / 1024 + KY3 pcmat))"

text \<open>A matrix that maps \<open>(x, y)\<close> to \<open>(x + 10, x)\<close>.\<close>

definition shear_mat :: "real calibration_mat_t" where
  "shear_mat = \<lparr>KX1 = 1024, KX2 = 0, KX3 = 10, KY1 = 1024, KY2 = 0, KY3 = 0\<rparr>"

section \<open>Properties of the touch sampler\<close>

subsection \<open>Rounded division\<close>

lemma div_le_of_le_mult:
  fixes x k B :: int
  assumes "0 < B" "x \<le> k * B"
  shows "x div B \<le> k"
proof -
  have "x div B \<le> (k * B) div B" using assms by (intro zdiv_mono1) auto
  then show ?thesis using assms by simp
qed

lemma le_div_of_mult_le:
  fixes x k B :: int
  assumes "0 < B" "k * B \<le> x"
  shows "k \<le> x div B"
proof -
  have "(k * B) div B \<le> x div B" using assms by (intro zdiv_mono1) auto
  then show ?thesis using assms by simp
qed

lemma round_div_nonneg:
  fixes e r :: int
  assumes "0 < r" "0 \<le> e"
  shows "0 \<le> (e + r) div (2 * r) \<and> (e + r) div (2 * r) \<le> e"
proof
  show "0 \<le> (e + r) div (2 * r)" using assms by (simp add: pos_imp_zdiv_nonneg_iff)
  show "(e + r) div (2 * r) \<le> e"
  proof (cases "e = 0")
    case True
    then show ?thesis using assms by (simp add: div_pos_pos_trivial)
  next
    case False
    then have e1: "1 \<le> e" using assms by simp
    have "r \<le> e * r" using e1 assms by (simp add: mult_le_cancel_right1)
    moreover have "e \<le> e * r" using e1 assms by (simp add: mult_le_cancel_left1)
    ultimately have "e + r \<le> e * (2 * r)" by (simp add: algebra_simps)
    then show ?thesis using assms by (intro div_le_of_le_mult) auto
  qed
qed

lemma round_div_neg:
  fixes e r :: int
  assumes "0 < r" "e < 0"
  shows "e \<le> (e + r) div (2 * r) \<and> (e + r) div (2 * r) \<le> 0"
proof
  have "e * (2 * r) \<le> e * 1" using assms by (intro mult_left_mono_neg) auto
  then have "e * (2 * r) \<le> e" by simp
  then have "e * (2 * r) \<le> e + r" using assms by linarith
  then show "e \<le> (e + r) div (2 * r)" using assms by (intro le_div_of_mult_le) auto
  have "(e + r) div (2 * r) < 1"
  proof (rule ccontr)
    assume "\<not> (e + r) div (2 * r) < 1"
    then have "0 < (e + r) div (2 * r)" by simp
    then have "2 * r \<le> e + r" using assms by (simp add: pos_imp_zdiv_pos_iff)
    then show False using assms by simp
  qed
  then show "(e + r) div (2 * r) \<le> 0" by simp
qed

lemma round_div_pos_strict:
  fixes e r :: int
  assumes "0 < r" "r \<le> e"
  shows "1 \<le> (e + r) div (2 * r)"
proof -
  have "1 * (2 * r) \<le> e + r" using assms by simp
  then show ?thesis using assms by (intro le_div_of_mult_le) auto
qed

lemma round_div_neg_strict:
  fixes e r :: int
  assumes "0 < r" "e < - r"
  shows "(e + r) div (2 * r) \<le> - 1"
proof -
  have "(e + r) div (2 * r) < 0" using assms by (simp add: pos_imp_zdiv_neg_iff)
  then show ?thesis by simp
qed

lemma round_div_zero:
  fixes e r :: int
  assumes "0 < r" "- r \<le> e" "e < r"
  shows "(e + r) div (2 * r) = 0"
  using assms by (simp add: div_pos_pos_trivial)

subsection \<open>One update of the exponential filter\<close>

lemma ideal_update_alt:
  assumes "0 < beta"
  shows "ideal_update beta raw f
       = f + (push_bit 14 raw - f + 2 ^ (nat beta - 1)) div (2 * 2 ^ (nat beta - 1))"
proof -
  from assms have "nat beta = Suc (nat beta - 1)" by simp
  then have p: "(2::int) ^ nat beta = 2 * 2 ^ (nat beta - 1)"
    by (metis power_Suc)
  have q: "nat (beta - 1) = nat beta - 1" by simp
  show ?thesis
    unfolding ideal_update_def drop_bit_eq_div p q by (simp add: push_bit_eq_mult)
qed

lemma ideal_update_below:
  assumes "0 < beta" "f \<le> push_bit 14 raw"
  shows "f \<le> ideal_update beta raw f \<and> ideal_update beta raw f \<le> push_bit 14 raw"
proof -
  have "0 \<le> push_bit 14 raw - f" using assms by simp
  from round_div_nonneg [OF _ this, of "2 ^ (nat beta - 1)"] show ?thesis
    unfolding ideal_update_alt [OF assms(1)] by simp
qed

lemma ideal_update_above:
  assumes "0 < beta" "push_bit 14 raw < f"
  shows "push_bit 14 raw \<le> ideal_update beta raw f \<and> ideal_update beta raw f \<le> f"
proof -
  have "push_bit 14 raw - f < 0" using assms by simp
  from round_div_neg [OF _ this, of "2 ^ (nat beta - 1)"] show ?thesis
    unfolding ideal_update_alt [OF assms(1)] by simp
qed

lemma ideal_update_fixed_iff:
  assumes "0 < beta"
  shows "ideal_update beta raw f = f \<longleftrightarrow> settled beta raw f"
proof
  assume fx: "ideal_update beta raw f = f"
  let ?r = "(2::int) ^ (nat beta - 1)" and ?e = "push_bit 14 raw - f"
  have r: "0 < ?r" by simp
  have q: "(?e + ?r) div (2 * ?r) = 0" using fx unfolding ideal_update_alt [OF assms] by simp
  have "\<not> ?r \<le> ?e" using round_div_pos_strict [OF r, of ?e] q by auto
  moreover have "\<not> ?e < - ?r" using round_div_neg_strict [OF r, of ?e] q by auto
  ultimately show "settled beta raw f" unfolding settled_def by simp
next
  assume "settled beta raw f"
  then show "ideal_update beta raw f = f"
    unfolding ideal_update_alt [OF assms] settled_def
    using round_div_zero [of "2 ^ (nat beta - 1)" "push_bit 14 raw - f"] by simp
qed

lemma ideal_update_progress:
  assumes "0 < beta" "\<not> settled beta raw f"
  shows "\<bar>push_bit 14 raw - ideal_update beta raw f\<bar> < \<bar>push_bit 14 raw - f\<bar>"
proof -
  let ?r = "(2::int) ^ (nat beta - 1)" and ?e = "push_bit 14 raw - f"
  have r: "0 < ?r" by simp
  from assms(2) consider "?r \<le> ?e" | "?e < - ?r" unfolding settled_def by linarith
  then show ?thesis
  proof cases
    case 1
    then have "0 \<le> ?e" using r by linarith
    from round_div_nonneg [OF r this] round_div_pos_strict [OF r 1]
    show ?thesis unfolding ideal_update_alt [OF assms(1)] by simp
  next
    case 2
    then have "?e < 0" using r by linarith
    from round_div_neg [OF r this] round_div_neg_strict [OF r 2]
    show ?thesis unfolding ideal_update_alt [OF assms(1)] by simp
  qed
qed

lemma ideal_run_settled:
  assumes "0 < beta" "settled beta raw f"
  shows "ideal_run beta raw n f = f"
proof -
  have "ideal_update beta raw f = f"
    using assms by (simp add: ideal_update_fixed_iff)
  then show ?thesis by (induction n) simp_all
qed

lemma ideal_run_reaches_band:
  assumes "0 < beta"
  shows "nat \<bar>push_bit 14 raw - f\<bar> \<le> n \<Longrightarrow> settled beta raw (ideal_run beta raw n f)"
proof (induction n arbitrary: f)
  case 0
  then have "push_bit 14 raw - f = 0" by simp
  then show ?case by (simp add: settled_def)
next
  case (Suc n)
  show ?case
  proof (cases "settled beta raw f")
    case True
    then show ?thesis by (simp only: ideal_run_settled [OF assms True])
  next
    case False
    from ideal_update_progress [OF assms False] Suc.prems
    have "nat \<bar>push_bit 14 raw - ideal_update beta raw f\<bar> \<le> n" by linarith
    from Suc.IH [OF this] show ?thesis by simp
  qed
qed

subsection \<open>Geometric approach to the dead band\<close>

lemma band_dist_nonneg: "0 \<le> band_dist beta raw f"
  by (simp add: band_dist_def Let_def)

lemma band_dist_le: "band_dist beta raw f \<le> \<bar>push_bit 14 raw - f\<bar>"
proof -
  define e r where "e = push_bit 14 raw - f" and "r = (2::int) ^ (nat beta - 1)"
  have "1 \<le> r" by (simp add: r_def)
  then have "(if r \<le> e then e - r + 1 else if e < - r then - r - e else 0) \<le> \<bar>e\<bar>"
    by (cases "r \<le> e"; cases "e < - r") simp_all
  then show ?thesis unfolding band_dist_def Let_def e_def r_def .
qed

lemma settled_iff_dist: "settled beta raw f \<longleftrightarrow> band_dist beta raw f = 0"
  by (auto simp: settled_def band_dist_def Let_def)

lemma ceil_div_bounds:
  fixes u B :: int
  assumes "2 \<le> B" "1 \<le> u"
  shows "1 \<le> (u + B - 1) div B" "(u + B - 1) div B \<le> u"
proof -
  have "1 * B \<le> u + B - 1" using assms by simp
  then show "1 \<le> (u + B - 1) div B" using assms by (intro le_div_of_mult_le) auto
  have "0 \<le> (u - 1) * (B - 1)" using assms by (intro mult_nonneg_nonneg) auto
  then have "u + B - 1 \<le> u * B" by (simp add: algebra_simps)
  then show "(u + B - 1) div B \<le> u" using assms by (intro div_le_of_le_mult) auto
qed

lemma neg_div_ceil:
  fixes v B :: int
  assumes "0 < B"
  shows "(- v) div B = - ((v + B - 1) div B)"
proof -
  let ?c = "(v + B - 1) div B" and ?m = "(v + B - 1) mod B"
  have dm: "v + B - 1 = B * ?c + ?m" by simp
  have m: "0 \<le> ?m" "?m < B" using assms by simp_all
  have "- v = B * (- ?c) + (B - 1 - ?m)" using dm by (simp add: algebra_simps)
  moreover have "0 \<le> B - 1 - ?m" "B - 1 - ?m < B" using m by simp_all
  ultimately show ?thesis by (metis int_div_pos_eq)
qed


lemma band_dist_step:
  assumes "0 < beta"
  shows "band_dist beta raw (ideal_update beta raw f)
       = dist_step (2 ^ nat beta) (band_dist beta raw f)"
proof -
  define e r B where "e = push_bit 14 raw - f" and "r = (2::int) ^ (nat beta - 1)"
    and "B = (2::int) ^ nat beta"
  from assms have "nat beta = Suc (nat beta - 1)" by simp
  then have B: "B = 2 * r" unfolding B_def r_def by (metis power_Suc)
  have r: "1 \<le> r" by (simp add: r_def)
  define q where "q = (e + r) div (2 * r)"
  have e': "push_bit 14 raw - ideal_update beta raw f = e - q"
    unfolding ideal_update_alt [OF assms] e_def r_def q_def by simp
  have bd: "band_dist beta raw g
          = (if r \<le> push_bit 14 raw - g then push_bit 14 raw - g - r + 1
             else if push_bit 14 raw - g < - r then - r - (push_bit 14 raw - g) else 0)" for g
    unfolding band_dist_def Let_def r_def ..
  consider (hi) "r \<le> e" | (lo) "e < - r" | (mid) "- r \<le> e" "e < r" by linarith
  then have "(if r \<le> e - q then e - q - r + 1 else if e - q < - r then - r - (e - q) else 0)
           = dist_step B (if r \<le> e then e - r + 1 else if e < - r then - r - e else 0)"
  proof cases
    case hi
    define u where "u = e - r + 1"
    have u: "1 \<le> u" using hi by (simp add: u_def)
    have er: "e + r = u + B - 1" by (simp add: u_def B)
    have q: "q = (u + B - 1) div B" unfolding q_def B [symmetric] er ..
    have "2 \<le> B" using r B by simp
    from ceil_div_bounds [OF this u] have "1 \<le> q" "q \<le> u" unfolding q by simp_all
    then have "r - 1 \<le> e - q" by (simp add: u_def)
    then show ?thesis using hi r q by (auto simp: dist_step_def u_def)
  next
    case lo
    define v where "v = - r - e"
    have v: "1 \<le> v" using lo by (simp add: v_def)
    have er: "e + r = - v" by (simp add: v_def)
    have "0 < B" using r B by simp
    then have q: "q = - ((v + B - 1) div B)"
      unfolding q_def B [symmetric] er by (rule neg_div_ceil)
    have "2 \<le> B" using r B by simp
    from ceil_div_bounds [OF this v] have c: "1 \<le> (v + B - 1) div B" "(v + B - 1) div B \<le> v"
      by simp_all
    then have "e - q \<le> - r" unfolding q by (simp add: v_def)
    then show ?thesis using lo r q c by (auto simp: dist_step_def v_def)
  next
    case mid
    then have "q = 0" unfolding q_def using round_div_zero [of r e] r by simp
    moreover have "dist_step B 0 = 0" using r B by (simp add: dist_step_def div_pos_pos_trivial)
    ultimately show ?thesis using mid by simp
  qed
  then show ?thesis
    unfolding bd e' unfolding e_def [symmetric] B_def [symmetric] .
qed


lemma dist_step_bounds:
  assumes "2 \<le> B" "0 \<le> d"
  shows "0 \<le> dist_step B d \<and> dist_step B d \<le> d"
proof (cases "d = 0")
  case True
  then show ?thesis using assms by (simp add: dist_step_def div_pos_pos_trivial)
next
  case False
  then have "1 \<le> d" using assms by simp
  from ceil_div_bounds [OF assms(1) this] show ?thesis by (simp add: dist_step_def)
qed

lemma dist_step_zero: "2 \<le> B \<Longrightarrow> (dist_step B ^^ n) 0 = 0"
  by (induction n) (simp_all add: dist_step_def div_pos_pos_trivial)

lemma dist_step_halves:
  assumes B: "2 \<le> B" and d: "0 \<le> d" "d \<le> U"
  shows "0 \<le> (dist_step B ^^ nat B) d \<and> (dist_step B ^^ nat B) d \<le> U div 2"
proof -
  define c where "c = (U div 2 + B) div B"
  have inv: "0 \<le> (dist_step B ^^ j) d
           \<and> ((dist_step B ^^ j) d \<le> U div 2 \<or> (dist_step B ^^ j) d + int j * c \<le> U)" for j
  proof (induction j)
    case 0
    show ?case using d by simp
  next
    case (Suc j)
    let ?x = "(dist_step B ^^ j) d"
    from Suc have x0: "0 \<le> ?x" by simp
    note st = dist_step_bounds [OF B x0]
    show ?case
    proof (cases "?x \<le> U div 2")
      case True
      then show ?thesis using st by simp
    next
      case False
      with Suc have sum: "?x + int j * c \<le> U" by simp
      from False have "U div 2 + B \<le> ?x + B - 1" by simp
      then have "c \<le> (?x + B - 1) div B"
        unfolding c_def using B by (intro zdiv_mono1) auto
      then have "dist_step B ?x + c \<le> ?x" by (simp add: dist_step_def)
      then have "dist_step B ?x + int (Suc j) * c \<le> U" using sum by (simp add: algebra_simps)
      then show ?thesis using st by simp
    qed
  qed
  have cB: "U div 2 < c * B"
  proof -
    have "U div 2 + B = B * c + (U div 2 + B) mod B"
      unfolding c_def by (metis mult_div_mod_eq)
    moreover have "(U div 2 + B) mod B < B" using B by simp
    ultimately show ?thesis by (simp add: mult.commute)
  qed
  have "int (nat B) = B" using B by simp
  with inv [of "nat B"] have "0 \<le> (dist_step B ^^ nat B) d"
    and alt: "(dist_step B ^^ nat B) d \<le> U div 2 \<or> (dist_step B ^^ nat B) d + B * c \<le> U"
    by simp_all
  moreover have "(dist_step B ^^ nat B) d \<le> U div 2"
    if "(dist_step B ^^ nat B) d + B * c \<le> U"
    using that cB by (simp add: mult.commute)
  ultimately show ?thesis by blast
qed

lemma dist_step_reaches_zero:
  assumes "2 \<le> B"
  shows "0 \<le> d \<Longrightarrow> d < 2 ^ k \<Longrightarrow> (dist_step B ^^ (k * nat B)) d = 0"
proof (induction k arbitrary: d)
  case 0
  then show ?case by simp
next
  case (Suc k)
  let ?d' = "(dist_step B ^^ nat B) d"
  from dist_step_halves [OF assms Suc.prems(1) order_refl]
  have d': "0 \<le> ?d'" "?d' \<le> d div 2" by simp_all
  have "d div 2 < 2 ^ k" using Suc.prems(2) by simp
  with d' have "?d' < 2 ^ k" by simp
  from Suc.IH [OF d'(1) this]
  have "(dist_step B ^^ (k * nat B)) ?d' = 0" .
  moreover have "Suc k * nat B = k * nat B + nat B" by simp
  then have "(dist_step B ^^ (Suc k * nat B)) d = (dist_step B ^^ (k * nat B)) ?d'"
    by (simp only: funpow_add o_apply)
  ultimately show ?case by simp
qed

lemma band_dist_run:
  assumes "0 < beta"
  shows "band_dist beta raw (ideal_run beta raw n f)
       = (dist_step (2 ^ nat beta) ^^ n) (band_dist beta raw f)"
proof (induction n arbitrary: f)
  case 0
  show ?case by simp
next
  case (Suc n)
  show ?case
    by (simp add: Suc.IH band_dist_step [OF assms] funpow_swap1)
qed

lemma ideal_run_settles_fast:
  assumes "0 < beta" and "band_dist beta raw f < 2 ^ k" and "k * 2 ^ nat beta \<le> n"
  shows "settled beta raw (ideal_run beta raw n f)"
proof -
  let ?B = "(2::int) ^ nat beta"
  from assms(1) have "nat beta = Suc (nat beta - 1)" by simp
  then have "?B = 2 * 2 ^ (nat beta - 1)" by (metis power_Suc)
  then have B: "2 \<le> ?B" by simp
  have nB: "nat ?B = 2 ^ nat beta" by (simp add: nat_power_eq)
  obtain m where n: "n = m + k * 2 ^ nat beta"
    using assms(3) by (metis add.commute le_Suc_ex)
  have "(dist_step ?B ^^ (k * nat ?B)) (band_dist beta raw f) = 0"
    by (rule dist_step_reaches_zero [OF B band_dist_nonneg assms(2)])
  then have "(dist_step ?B ^^ n) (band_dist beta raw f) = 0"
    unfolding n nB by (simp add: funpow_add dist_step_zero [OF B])
  then show ?thesis
    by (simp add: settled_iff_dist band_dist_run [OF assms(1)])
qed

subsection \<open>The 32-bit update and the update on the integers\<close>

lemma ideal_run_between:
  assumes "0 < beta"
  shows "(f \<le> push_bit 14 raw \<longrightarrow>
            f \<le> ideal_run beta raw n f \<and> ideal_run beta raw n f \<le> push_bit 14 raw)
       \<and> (push_bit 14 raw \<le> f \<longrightarrow>
            push_bit 14 raw \<le> ideal_run beta raw n f \<and> ideal_run beta raw n f \<le> f)"
proof (induction n arbitrary: f)
  case 0
  show ?case by simp
next
  case (Suc n)
  let ?g = "ideal_update beta raw f"
  show ?case
  proof (cases "f \<le> push_bit 14 raw")
    case True
    from ideal_update_below [OF assms True] have g: "f \<le> ?g" "?g \<le> push_bit 14 raw" by simp_all
    from Suc.IH [of ?g] g(2)
    have "?g \<le> ideal_run beta raw n ?g \<and> ideal_run beta raw n ?g \<le> push_bit 14 raw" by simp
    moreover have "push_bit 14 raw \<le> f \<longrightarrow> f = push_bit 14 raw" using True by simp
    ultimately show ?thesis using g True by auto
  next
    case False
    then have lt: "push_bit 14 raw < f" by simp
    from ideal_update_above [OF assms lt] have g: "push_bit 14 raw \<le> ?g" "?g \<le> f" by simp_all
    from Suc.IH [of ?g] g(1)
    have "push_bit 14 raw \<le> ideal_run beta raw n ?g \<and> ideal_run beta raw n ?g \<le> ?g" by simp
    then show ?thesis using g False by auto
  qed
qed

lemma sint_push_bit_14:
  fixes raw :: "32 word"
  assumes "- (2 ^ 31) \<le> push_bit 14 (sint raw)" "push_bit 14 (sint raw) < 2 ^ 31"
  shows "sint (push_bit 14 raw) = push_bit 14 (sint raw)"
proof -
  have c: "sint (2 ^ 14 :: 32 word) = 2 ^ 14" by simp
  have "sint (push_bit 14 raw) = signed_take_bit 31 (sint raw * 2 ^ 14)"
    unfolding push_bit_eq_mult sint_word_mult c by simp
  also have "\<dots> = sint raw * 2 ^ 14"
    using assms by (intro signed_take_bit_int_eq_self) (simp_all add: push_bit_eq_mult)
  finally show ?thesis by (simp add: push_bit_eq_mult)
qed

lemma sint_rounding_term:
  assumes "n \<le> 30"
  shows "sint (push_bit n 1 :: 32 word) = 2 ^ n"
proof -
  have "(push_bit n 1 :: 32 word) = word_of_int (2 ^ n)"
    by (simp add: push_bit_eq_mult)
  then have "sint (push_bit n 1 :: 32 word) = signed_take_bit 31 (2 ^ n)"
    using sint_sbintrunc' [of "2 ^ n", where 'a = 32] by simp
  also have "\<dots> = 2 ^ n"
  proof (rule signed_take_bit_int_eq_self)
    show "- (2 ^ 31) \<le> (2::int) ^ n"
      by (rule order_trans [of _ 0]) simp_all
    have "(2::int) ^ n \<le> 2 ^ 30" using assms by (intro power_increasing) simp_all
    then show "(2::int) ^ n < 2 ^ 31" by simp
  qed
  finally show ?thesis .
qed

lemma abs_below_2p32:
  fixes T s r :: int
  assumes "0 < r" "- (2 ^ 31) \<le> T - s" "T - s + r < 2 ^ 31"
  shows "\<bar>T - s\<bar> < 2 ^ 32"
  using assms by simp

lemma filter_update_sint:
  assumes b: "1 \<le> sint beta" "sint beta \<le> 31" and fits: "filter_fits beta raw f"
  shows "\<exists>g. filter_update beta raw f = Inr g
           \<and> sint g = ideal_update (sint beta) (sint raw) (sint f)
           \<and> filter_fits beta raw g"
proof -
  let ?b = "sint beta" and ?T = "push_bit 14 (sint raw)" and ?r = "(2::int) ^ (nat (sint beta) - 1)"
  let ?D = "push_bit 14 raw - f" and ?R = "push_bit (nat (sint beta - 1)) 1 :: 32 word"
  let ?g = "f + signed_drop_bit (nat ?b) (?D + ?R)"
  let ?u = "ideal_update ?b (sint raw) (sint f)"
  from fits have T: "- (2 ^ 31) \<le> ?T" "?T < 2 ^ 31"
    and lo: "- (2 ^ 31) \<le> ?T - sint f" and hi: "?T - sint f + ?r < 2 ^ 31"
    by (simp_all add: filter_fits_def)
  have b0: "0 < ?b" using b by simp
  have r0: "0 < ?r" by simp
  have nb: "nat (?b - 1) = nat ?b - 1" by simp
  have "nat ?b - 1 \<le> 30" using b by linarith
  then have sR: "sint ?R = ?r" unfolding nb by (rule sint_rounding_term)
  have sT: "sint (push_bit 14 raw) = ?T" by (rule sint_push_bit_14 [OF T])
  have "sint ?D = signed_take_bit 31 (?T - sint f)"
    unfolding sint_word_diff sT by simp
  also have "\<dots> = ?T - sint f"
    using lo hi r0 by (intro signed_take_bit_int_eq_self) linarith+
  finally have sD: "sint ?D = ?T - sint f" .
  have "sint (?D + ?R) = signed_take_bit 31 (?T - sint f + ?r)"
    unfolding sint_word_add sD sR by simp
  also have "\<dots> = ?T - sint f + ?r"
    using lo hi r0 by (intro signed_take_bit_int_eq_self) linarith+
  finally have sE: "sint (?D + ?R) = ?T - sint f + ?r" .
  have sQ: "sint (signed_drop_bit (nat ?b) (?D + ?R)) = drop_bit (nat ?b) (?T - sint f + ?r)"
    unfolding sint_signed_drop_bit_eq sE ..
  have u: "?u = sint f + drop_bit (nat ?b) (?T - sint f + ?r)"
    unfolding ideal_update_def nb by (simp add: push_bit_eq_mult)
  have fr: "- (2 ^ 31) \<le> sint f" "sint f < 2 ^ 31"
    using sint_ge [of f] sint_lt [of f] by simp_all
  have btw: "(sint f \<le> ?T \<and> sint f \<le> ?u \<and> ?u \<le> ?T) \<or> (?T < sint f \<and> ?T \<le> ?u \<and> ?u \<le> sint f)"
    using ideal_update_below [OF b0, of "sint f" "sint raw"]
          ideal_update_above [OF b0, of "sint raw" "sint f"] by linarith
  then have ur: "- (2 ^ 31) \<le> ?u" "?u < 2 ^ 31" using T fr by linarith+
  have "sint ?g = signed_take_bit 31 (sint f + drop_bit (nat ?b) (?T - sint f + ?r))"
    unfolding sint_word_add sQ by simp
  also have "\<dots> = ?u"
    unfolding u [symmetric] using ur by (intro signed_take_bit_int_eq_self) simp_all
  finally have sg: "sint ?g = ?u" .
  have r31: "?r < 2 ^ 31"
  proof -
    have "?r \<le> 2 ^ 30" using \<open>nat ?b - 1 \<le> 30\<close> by (intro power_increasing) simp_all
    then show ?thesis by simp
  qed
  have fits': "filter_fits beta raw ?g"
    unfolding filter_fits_def sg using T lo hi btw r0 r31 by (simp add: push_bit_eq_mult) linarith
  have run: "filter_update beta raw f = Inr ?g"
    using b by (simp add: filter_update_def)
  show ?thesis using run sg fits' by blast
qed

lemma filter_run_sint:
  assumes b: "1 \<le> sint beta" "sint beta \<le> 31"
  shows "filter_fits beta raw f \<Longrightarrow>
         \<exists>h. filter_run beta raw n f = Inr h
           \<and> sint h = ideal_run (sint beta) (sint raw) n (sint f)
           \<and> filter_fits beta raw h"
proof (induction n arbitrary: f)
  case 0
  then show ?case by simp
next
  case (Suc n)
  from filter_update_sint [OF b Suc.prems] obtain g where
    g: "filter_update beta raw f = Inr g" "sint g = ideal_update (sint beta) (sint raw) (sint f)"
       "filter_fits beta raw g" by blast
  from Suc.IH [OF g(3)] show ?case using g(1,2) by simp
qed

lemma filter_fits_distance:
  assumes "filter_fits beta raw f"
  shows "\<bar>push_bit 14 (sint raw) - sint f\<bar> < 2 ^ 32"
proof -
  have r: "(0::int) < 2 ^ (nat (sint beta) - 1)" by simp
  from assms have "- (2 ^ 31) \<le> push_bit 14 (sint raw) - sint f"
    and "push_bit 14 (sint raw) - sint f + 2 ^ (nat (sint beta) - 1) < 2 ^ 31"
    unfolding filter_fits_def by blast+
  from abs_below_2p32 [OF r this] show ?thesis .
qed

lemma filter_update_fixed:
  assumes b: "1 \<le> sint beta" "sint beta \<le> 31" and fits: "filter_fits beta raw f"
  shows "filter_update beta raw f = Inr f \<longleftrightarrow> settled (sint beta) (sint raw) (sint f)"
proof -
  from filter_update_sint [OF b fits] obtain g where
    g: "filter_update beta raw f = Inr g" "sint g = ideal_update (sint beta) (sint raw) (sint f)"
    by blast
  have b0: "0 < sint beta" using b by simp
  have "g = f \<longleftrightarrow> sint g = sint f" by (rule word_eq_iff_signed)
  also have "\<dots> \<longleftrightarrow> settled (sint beta) (sint raw) (sint f)"
    unfolding g(2) by (rule ideal_update_fixed_iff [OF b0])
  finally show ?thesis using g(1) by simp
qed

text \<open>
  Claim C7, as stated: from every starting value the iterated update reaches
  \<open>raw << 14\<close>, monotonically. It does neither. With beta 5 and raw sample 100 the
  target is 1638400; the value 1638385, fifteen below it, is a fixed point of the
  update, so the filter stays there for ever. With beta 2, started at 0, the filter
  arrives at 1638399 within 80 updates and stays there. And started at the least
  \<open>int\<close>, -2147483648, the subtraction wraps and one update with beta 5 jumps to
  2080425984, far beyond the target.
\<close>

theorem filter_stalls_counterexample:
  "filter_update 5 100 1638385 = Inr 1638385
 \<and> push_bit 14 (100 :: 32 word) = 1638400
 \<and> filter_run 2 100 80 0 = Inr 1638399
 \<and> filter_update 2 100 1638399 = Inr 1638399
 \<and> filter_update 5 100 (- 2147483648) = Inr 2080425984
 \<and> sint (- 2147483648 :: 32 word) < 1638400
 \<and> 1638400 < sint (2080425984 :: 32 word)"
proof -
  have run: "filter_run 2 100 80 0 = Inr 1638399"
    by (simp add: filter_update_def eval_nat_numeral)
  show ?thesis
    unfolding run by (simp add: filter_update_def)
qed

text \<open>
  Claim C7, amended: for every beta from 1 to 31, every raw sample and every starting
  value for which \<open>raw << 14\<close>, its difference to the starting value and that difference
  plus the rounding term fit into 32 bits, every update is defined and is the update on
  the integers, \<open>f + ((raw << 14) - f + 2 ^ (beta - 1)) div 2 ^ beta\<close>; it never moves
  the filtered value away from \<open>raw << 14\<close> and never past it, and so does every number
  of updates; the values one update leaves unchanged are exactly those with
  \<open>- 2 ^ (beta - 1) \<le> (raw << 14) - f < 2 ^ (beta - 1)\<close>; the filtered value is in that
  band, and stays there, after \<open>\<bar>(raw << 14) - f\<bar>\<close> updates at the latest, already
  after \<open>k * 2 ^ beta\<close> updates when the starting distance is below \<open>2 ^ k\<close>, and in
  any case after \<open>32 * 2 ^ beta\<close> updates. The value \<open>raw << 14\<close> itself need not be
  reached.
\<close>

theorem filter_converges_to_band:
  assumes "1 \<le> sint beta" and "sint beta \<le> 31" and "filter_fits beta raw f"
  shows "\<exists>g h. filter_update beta raw f = Inr g \<and> filter_run beta raw n f = Inr h
     \<and> sint g = sint f + (push_bit 14 (sint raw) - sint f + 2 ^ (nat (sint beta) - 1))
                            div 2 ^ nat (sint beta)
     \<and> (sint f \<le> push_bit 14 (sint raw) \<longrightarrow>
          sint f \<le> sint g \<and> sint g \<le> push_bit 14 (sint raw)
        \<and> sint f \<le> sint h \<and> sint h \<le> push_bit 14 (sint raw))
     \<and> (push_bit 14 (sint raw) \<le> sint f \<longrightarrow>
          push_bit 14 (sint raw) \<le> sint g \<and> sint g \<le> sint f
        \<and> push_bit 14 (sint raw) \<le> sint h \<and> sint h \<le> sint f)
     \<and> (g = f \<longleftrightarrow> settled (sint beta) (sint raw) (sint f))
     \<and> filter_fits beta raw h
     \<and> (nat \<bar>push_bit 14 (sint raw) - sint f\<bar> \<le> n
          \<or> \<bar>push_bit 14 (sint raw) - sint f\<bar> < 2 ^ k \<and> k * 2 ^ nat (sint beta) \<le> n
          \<or> 32 * 2 ^ nat (sint beta) \<le> n \<longrightarrow>
          settled (sint beta) (sint raw) (sint h) \<and> filter_update beta raw h = Inr h)"
proof -
  let ?b = "sint beta" and ?T = "push_bit 14 (sint raw)"
  note b = assms(1,2)
  have b0: "0 < ?b" using b by simp
  from filter_update_sint [OF assms] obtain g where
    g: "filter_update beta raw f = Inr g" "sint g = ideal_update ?b (sint raw) (sint f)"
    by blast
  from filter_run_sint [OF b assms(3), of n] obtain h where
    h: "filter_run beta raw n f = Inr h" "sint h = ideal_run ?b (sint raw) n (sint f)"
       "filter_fits beta raw h"
    by blast
  have formula: "sint g = sint f + (?T - sint f + 2 ^ (nat ?b - 1)) div 2 ^ nat ?b"
  proof -
    from b0 have "nat ?b = Suc (nat ?b - 1)" by simp
    then have "(2::int) ^ nat ?b = 2 * 2 ^ (nat ?b - 1)" by (metis power_Suc)
    then show ?thesis unfolding g(2) ideal_update_alt [OF b0] by simp
  qed
  have eqT: "ideal_update ?b (sint raw) ?T = ?T"
    using ideal_update_below [OF b0, of ?T "sint raw"] by simp
  have below: "sint f \<le> ?T \<longrightarrow> sint f \<le> sint g \<and> sint g \<le> ?T \<and> sint f \<le> sint h \<and> sint h \<le> ?T"
    unfolding g(2) h(2)
    using ideal_update_below [OF b0, of "sint f" "sint raw"]
          ideal_run_between [OF b0, of "sint f" "sint raw" n] by blast
  have above: "?T \<le> sint f \<longrightarrow> ?T \<le> sint g \<and> sint g \<le> sint f \<and> ?T \<le> sint h \<and> sint h \<le> sint f"
  proof (cases "?T = sint f")
    case True
    then show ?thesis unfolding g(2) h(2)
      using eqT ideal_run_between [OF b0, of "sint f" "sint raw" n] by simp
  next
    case False
    then show ?thesis unfolding g(2) h(2)
      using ideal_update_above [OF b0, of "sint raw" "sint f"]
            ideal_run_between [OF b0, of "sint f" "sint raw" n] by simp
  qed
  have fixed: "g = f \<longleftrightarrow> settled ?b (sint raw) (sint f)"
    using filter_update_fixed [OF assms] g(1) by simp
  have stay: "settled ?b (sint raw) (sint h) \<Longrightarrow> filter_update beta raw h = Inr h"
    using filter_update_fixed [OF b h(3)] by simp
  have slow: "nat \<bar>?T - sint f\<bar> \<le> n \<Longrightarrow> settled ?b (sint raw) (sint h)"
    unfolding h(2) by (rule ideal_run_reaches_band [OF b0])
  have fast: "settled ?b (sint raw) (sint h)"
    if "\<bar>?T - sint f\<bar> < 2 ^ j" "j * 2 ^ nat ?b \<le> n" for j
  proof -
    from that(1) have "band_dist ?b (sint raw) (sint f) < 2 ^ j"
      using band_dist_le [of ?b "sint raw" "sint f"] by linarith
    from ideal_run_settles_fast [OF b0 this that(2)] show ?thesis unfolding h(2) .
  qed
  have any: "32 * 2 ^ nat ?b \<le> n \<Longrightarrow> settled ?b (sint raw) (sint h)"
    using fast [of 32] filter_fits_distance [OF assms(3)] by simp
  have band: "nat \<bar>?T - sint f\<bar> \<le> n
          \<or> \<bar>?T - sint f\<bar> < 2 ^ k \<and> k * 2 ^ nat ?b \<le> n
          \<or> 32 * 2 ^ nat ?b \<le> n \<longrightarrow>
          settled ?b (sint raw) (sint h) \<and> filter_update beta raw h = Inr h"
    using slow fast [of k] any stay by blast
  show ?thesis
    using g(1) h(1) formula below above fixed h(3) band by blast
qed

text \<open>
  Witness for C7 with the demo configuration: beta 5, raw sample 100 (target 1638400),
  start 0, which is not in the band. One update gives 51200; the distance is below
  \<open>2 ^ 21\<close>, so after \<open>21 * 32 = 672\<close> updates the value is in the band, between 0 and
  the target, and stays.
\<close>

theorem filter_converges_to_band_witness:
  "1 \<le> sint (5 :: 32 word) \<and> sint (5 :: 32 word) \<le> 31 \<and> filter_fits 5 100 0
 \<and> \<not> settled 5 100 0
 \<and> (\<exists>g h. filter_update 5 100 0 = Inr g \<and> filter_run 5 100 672 0 = Inr h
        \<and> sint g = 51200 \<and> 0 \<le> sint h \<and> sint h \<le> 1638400
        \<and> settled 5 100 (sint h) \<and> filter_update 5 100 h = Inr h)"
proof -
  have hyp: "1 \<le> sint (5 :: 32 word)" "sint (5 :: 32 word) \<le> 31" "filter_fits 5 100 0"
    by (simp_all add: filter_fits_def)
  have ns: "\<not> settled 5 100 0" by (simp add: settled_def)
  from filter_converges_to_band [OF hyp, of 672 21]
  show ?thesis using hyp ns by simp blast
qed

subsection \<open>The polling function\<close>

lemma CheckTouch_null: "CheckTouch None hw = Inr (- 1, None, hw)"
  by (simp add: CheckTouch_def)

lemma CheckTouch_badcfg:
  "mpHWConfig c = None \<or> sint (mkBetaShft c) \<le> 0 \<Longrightarrow> CheckTouch (Some c) hw = Inr (- 2, Some c, hw)"
  by (auto simp: CheckTouch_def split: option.splits)

lemma CheckTouch_released:
  "mpHWConfig c = Some cfg \<Longrightarrow> 0 < sint (mkBetaShft c) \<Longrightarrow> gpio_get hw (mGPIO_ispressed cfg)
   \<Longrightarrow> CheckTouch (Some c) hw = Inr (1, Some c, hw)"
  by (simp add: CheckTouch_def)

lemma long_flick_branch_fields:
  "mkTmMinFlick (fst (long_flick_branch t c hw)) = mkTmMinFlick c"
  "mkTmLongFlick (fst (long_flick_branch t c hw)) = mkTmLongFlick c"
  "mkBetaShft (fst (long_flick_branch t c hw)) = mkBetaShft c"
  "mpHWConfig (fst (long_flick_branch t c hw)) = mpHWConfig c"
  "mTmOfLastTouch (fst (long_flick_branch t c hw)) = t"
  "mIsProcessed (fst (long_flick_branch t c hw))"
  "mX (fst (long_flick_branch t c hw)) = ucast (spi_rx hw (spi_pos hw))"
  "mY (fst (long_flick_branch t c hw)) = ucast (spi_rx hw (spi_pos hw + 1))"
  "mXf (fst (long_flick_branch t c hw)) = push_bit 14 (ucast (spi_rx hw (spi_pos hw)))"
  "mYf (fst (long_flick_branch t c hw)) = push_bit 14 (ucast (spi_rx hw (spi_pos hw + 1)))"
  "spi_pos (snd (long_flick_branch t c hw)) = spi_pos hw + 2"
  by (simp_all add: long_flick_branch_def TouchReadRegisters_def Let_def)

lemma min_flick_branch_undefined:
  "31 < sint (mkBetaShft c) \<Longrightarrow> min_flick_branch t c hw = Inl UndefinedShift"
  by (simp add: min_flick_branch_def TouchReadRegisters_def Let_def filter_update_def)

lemma min_flick_branch_defined:
  assumes "1 \<le> sint (mkBetaShft c)" "sint (mkBetaShft c) \<le> 31"
  shows "\<exists>c' hw'. min_flick_branch t c hw = Inr (c', hw')
     \<and> mkTmMinFlick c' = mkTmMinFlick c \<and> mkTmLongFlick c' = mkTmLongFlick c
     \<and> mkBetaShft c' = mkBetaShft c \<and> mpHWConfig c' = mpHWConfig c
     \<and> mTmOfLastTouch c' = t \<and> mIsProcessed c'
     \<and> mX c' = ucast (spi_rx hw (spi_pos hw)) \<and> mY c' = ucast (spi_rx hw (spi_pos hw + 1))
     \<and> filter_update (mkBetaShft c) (ucast (spi_rx hw (spi_pos hw))) (mXf c) = Inr (mXf c')
     \<and> filter_update (mkBetaShft c) (ucast (spi_rx hw (spi_pos hw + 1))) (mYf c) = Inr (mYf c')
     \<and> spi_pos hw' = spi_pos hw + 2"
  using assms
  by (simp add: min_flick_branch_def TouchReadRegisters_def Let_def filter_update_def)

lemma CheckTouch_pressed:
  assumes "mpHWConfig c = Some cfg" "0 < sint (mkBetaShft c)" "\<not> gpio_get hw (mGPIO_ispressed cfg)"
  shows "CheckTouch (Some c) hw =
    (if scast (mkTmLongFlick c) < elapsed c hw
       then Inr (0, Some (fst (long_flick_branch (tm64_now hw) c hw)),
                    snd (long_flick_branch (tm64_now hw) c hw))
     else if scast (mkTmMinFlick c) < elapsed c hw
       then (case min_flick_branch (tm64_now hw) c hw of
               Inl e \<Rightarrow> Inl e
             | Inr (c2, hw2) \<Rightarrow> Inr (0, Some c2, hw2))
     else Inr (0, Some c, hw))"
  using assms
  by (simp add: CheckTouch_def Let_def elapsed_def tm64_now_def split_beta
                long_flick_branch_fields)

lemma sint_ucast_byte:
  fixes r :: "8 word"
  shows "sint (ucast r :: 32 word) = uint r"
proof -
  have "(ucast r :: 32 word) = word_of_int (uint r)" by simp
  then have "sint (ucast r :: 32 word) = signed_take_bit 31 (uint r)"
    using sint_sbintrunc' [of "uint r", where 'a = 32] by simp
  also have "\<dots> = uint r"
  proof (rule signed_take_bit_int_eq_self)
    show "- (2 ^ 31) \<le> uint r" by (rule order_trans [of _ 0]) simp_all
    show "uint r < 2 ^ 31" using uint_bounded [of r] by simp
  qed
  finally show ?thesis .
qed

lemma sint_snap:
  fixes r :: "8 word"
  shows "sint (push_bit 14 (ucast r :: 32 word)) = push_bit 14 (uint r)"
proof -
  have "- (2 ^ 31) \<le> push_bit 14 (uint r)"
    by (rule order_trans [of _ 0]) (simp_all add: push_bit_eq_mult)
  moreover have "push_bit 14 (uint r) < 2 ^ 31"
    using uint_bounded [of r] by (simp add: push_bit_eq_mult)
  ultimately have "- (2 ^ 31) \<le> push_bit 14 (uint r)" "push_bit 14 (uint r) < 2 ^ 31"
    by blast+
  then show ?thesis
    using sint_push_bit_14 [of "ucast r"] unfolding sint_ucast_byte by simp
qed

lemma demo_elapsed [simp]:
  "tm64_now (demo_hw level t) = ucast t"
  "elapsed demo_control (demo_hw level t) = ucast t"
  "elapsed (demo_control\<lparr>mkTmLongFlick := v\<rparr>) (demo_hw level t) = ucast t"
  by (simp_all add: elapsed_def tm64_now_def demo_hw_def demo_control_def)

lemma filter_update_value:
  assumes b: "1 \<le> sint beta" "sint beta \<le> 31" and fits: "filter_fits beta raw f"
      and run: "filter_update beta raw f = Inr g"
  shows "sint g = sint f + (push_bit 14 (sint raw) - sint f + 2 ^ (nat (sint beta) - 1))
                             div 2 ^ nat (sint beta)"
proof -
  have b0: "0 < sint beta" using b by simp
  from filter_update_sint [OF b fits] run
  have g: "sint g = ideal_update (sint beta) (sint raw) (sint f)" by auto
  from b0 have "nat (sint beta) = Suc (nat (sint beta) - 1)" by simp
  then have "(2::int) ^ nat (sint beta) = 2 * 2 ^ (nat (sint beta) - 1)" by (metis power_Suc)
  then show ?thesis unfolding g ideal_update_alt [OF b0] by simp
qed

text \<open>
  Claim C6, as stated: a pressed tick whose elapsed time is within the min-flick
  threshold leaves the filtered position unchanged. Not so when the long-press
  threshold is the smaller of the two. With long press 100 us and min flick 1000 us, a
  pressed tick 500 us after the last touch is within the min-flick threshold, and it
  snaps the filtered position from (0, 0) to (100 << 14, 50 << 14).
\<close>

theorem CheckTouch_snap_within_min_flick_counterexample:
  "elapsed (demo_control\<lparr>mkTmLongFlick := 100\<rparr>) (demo_hw False 500) = 500
 \<and> \<not> scast (mkTmMinFlick (demo_control\<lparr>mkTmLongFlick := 100\<rparr>)) < (500 :: 64 word)
 \<and> mXf (demo_control\<lparr>mkTmLongFlick := 100\<rparr>) = 0
 \<and> mYf (demo_control\<lparr>mkTmLongFlick := 100\<rparr>) = 0
 \<and> CheckTouch (Some (demo_control\<lparr>mkTmLongFlick := 100\<rparr>)) (demo_hw False 500)
     = Inr (0, Some (demo_control\<lparr>mkTmLongFlick := 100, mX := 100, mY := 50,
                       mIsProcessed := True, mTmOfLastTouch := 500,
                       mXf := 1638400, mYf := 819200\<rparr>),
               (demo_hw False 500)\<lparr>spi_pos := 2\<rparr>)"
  by (simp add: CheckTouch_def long_flick_branch_def TouchReadRegisters_def elapsed_def
        tm64_now_def demo_control_def demo_hw_def demo_hwconfig_def Let_def)

text \<open>
  Claim C6, amended: on a pressed tick (press line low) with a valid configuration,
  the elapsed time since the last accepted touch and the two thresholds being compared
  as the source does, as unsigned 64-bit values: if the elapsed time exceeds the
  long-press threshold, each axis is snapped to \<open>raw << 14\<close> and gets no smoothing
  update on that tick; if it exceeds the min-flick threshold but not the long-press
  threshold, each axis gets exactly one update
  \<open>f += ((raw << 14) - f + (1 << (beta - 1))) >> beta\<close> in 32-bit arithmetic, which is
  \<open>f + ((raw << 14) - f + 2 ^ (beta - 1)) div 2 ^ beta\<close> whenever the intermediate
  values fit into 32 bits, provided beta is at most 31, and the call is undefined for
  a larger beta; if it exceeds neither threshold, nothing changes and nothing is
  sampled. A tick within the min-flick threshold never makes a filter update: it
  changes nothing, or, when the long-press threshold is exceeded, it snaps.
\<close>

theorem CheckTouch_snap_or_filter:
  assumes "mpHWConfig c = Some cfg" and "0 < sint (mkBetaShft c)"
      and "\<not> gpio_get hw (mGPIO_ispressed cfg)"
  shows "(scast (mkTmLongFlick c) < elapsed c hw \<longrightarrow>
           (\<exists>c' hw'. CheckTouch (Some c) hw = Inr (0, Some c', hw')
              \<and> mX c' = ucast (spi_rx hw (spi_pos hw))
              \<and> mY c' = ucast (spi_rx hw (spi_pos hw + 1))
              \<and> mXf c' = push_bit 14 (mX c') \<and> mYf c' = push_bit 14 (mY c')
              \<and> sint (mXf c') = push_bit 14 (uint (spi_rx hw (spi_pos hw)))
              \<and> sint (mYf c') = push_bit 14 (uint (spi_rx hw (spi_pos hw + 1)))
              \<and> spi_pos hw' = spi_pos hw + 2 \<and> mTmOfLastTouch c' = tm64_now hw))
       \<and> (\<not> scast (mkTmLongFlick c) < elapsed c hw \<and> scast (mkTmMinFlick c) < elapsed c hw
            \<and> sint (mkBetaShft c) \<le> 31 \<longrightarrow>
           (\<exists>c' hw'. CheckTouch (Some c) hw = Inr (0, Some c', hw')
              \<and> mX c' = ucast (spi_rx hw (spi_pos hw))
              \<and> mY c' = ucast (spi_rx hw (spi_pos hw + 1))
              \<and> mXf c' = mXf c + signed_drop_bit (nat (sint (mkBetaShft c)))
                            (push_bit 14 (mX c') - mXf c
                               + push_bit (nat (sint (mkBetaShft c) - 1)) 1)
              \<and> mYf c' = mYf c + signed_drop_bit (nat (sint (mkBetaShft c)))
                            (push_bit 14 (mY c') - mYf c
                               + push_bit (nat (sint (mkBetaShft c) - 1)) 1)
              \<and> (filter_fits (mkBetaShft c) (mX c') (mXf c) \<longrightarrow>
                    sint (mXf c') = sint (mXf c)
                      + (push_bit 14 (uint (spi_rx hw (spi_pos hw))) - sint (mXf c)
                           + 2 ^ (nat (sint (mkBetaShft c)) - 1)) div 2 ^ nat (sint (mkBetaShft c)))
              \<and> (filter_fits (mkBetaShft c) (mY c') (mYf c) \<longrightarrow>
                    sint (mYf c') = sint (mYf c)
                      + (push_bit 14 (uint (spi_rx hw (spi_pos hw + 1))) - sint (mYf c)
                           + 2 ^ (nat (sint (mkBetaShft c)) - 1)) div 2 ^ nat (sint (mkBetaShft c)))
              \<and> spi_pos hw' = spi_pos hw + 2 \<and> mTmOfLastTouch c' = tm64_now hw))
       \<and> (\<not> scast (mkTmLongFlick c) < elapsed c hw \<and> scast (mkTmMinFlick c) < elapsed c hw
            \<and> 31 < sint (mkBetaShft c) \<longrightarrow>
           CheckTouch (Some c) hw = Inl UndefinedShift)
       \<and> (\<not> scast (mkTmLongFlick c) < elapsed c hw \<and> \<not> scast (mkTmMinFlick c) < elapsed c hw \<longrightarrow>
           CheckTouch (Some c) hw = Inr (0, Some c, hw))
       \<and> (\<not> scast (mkTmMinFlick c) < elapsed c hw \<longrightarrow>
           (\<exists>c' hw'. CheckTouch (Some c) hw = Inr (0, Some c', hw')
              \<and> (c' = c \<and> hw' = hw
                   \<or> scast (mkTmLongFlick c) < elapsed c hw
                     \<and> mXf c' = push_bit 14 (ucast (spi_rx hw (spi_pos hw)))
                     \<and> mYf c' = push_bit 14 (ucast (spi_rx hw (spi_pos hw + 1))))))"
proof -
  let ?L = "scast (mkTmLongFlick c) :: 64 word"
  let ?M = "scast (mkTmMinFlick c) :: 64 word"
  let ?b = "mkBetaShft c"
  let ?x = "spi_rx hw (spi_pos hw)" and ?y = "spi_rx hw (spi_pos hw + 1)"
  note step = CheckTouch_pressed [OF assms]
  have snap: "\<exists>c' hw'. CheckTouch (Some c) hw = Inr (0, Some c', hw')
              \<and> mX c' = ucast ?x \<and> mY c' = ucast ?y
              \<and> mXf c' = push_bit 14 (mX c') \<and> mYf c' = push_bit 14 (mY c')
              \<and> sint (mXf c') = push_bit 14 (uint ?x) \<and> sint (mYf c') = push_bit 14 (uint ?y)
              \<and> spi_pos hw' = spi_pos hw + 2 \<and> mTmOfLastTouch c' = tm64_now hw"
    if "?L < elapsed c hw"
    using step that by (simp add: long_flick_branch_fields sint_snap)
  have filt: "\<exists>c' hw'. CheckTouch (Some c) hw = Inr (0, Some c', hw')
              \<and> mX c' = ucast ?x \<and> mY c' = ucast ?y
              \<and> mXf c' = mXf c + signed_drop_bit (nat (sint ?b))
                            (push_bit 14 (mX c') - mXf c + push_bit (nat (sint ?b - 1)) 1)
              \<and> mYf c' = mYf c + signed_drop_bit (nat (sint ?b))
                            (push_bit 14 (mY c') - mYf c + push_bit (nat (sint ?b - 1)) 1)
              \<and> (filter_fits ?b (mX c') (mXf c) \<longrightarrow>
                    sint (mXf c') = sint (mXf c)
                      + (push_bit 14 (uint ?x) - sint (mXf c) + 2 ^ (nat (sint ?b) - 1))
                          div 2 ^ nat (sint ?b))
              \<and> (filter_fits ?b (mY c') (mYf c) \<longrightarrow>
                    sint (mYf c') = sint (mYf c)
                      + (push_bit 14 (uint ?y) - sint (mYf c) + 2 ^ (nat (sint ?b) - 1))
                          div 2 ^ nat (sint ?b))
              \<and> spi_pos hw' = spi_pos hw + 2 \<and> mTmOfLastTouch c' = tm64_now hw"
    if h: "\<not> ?L < elapsed c hw" "?M < elapsed c hw" "sint ?b \<le> 31"
  proof -
    have b: "1 \<le> sint ?b" "sint ?b \<le> 31" using assms(2) h(3) by simp_all
    from min_flick_branch_defined [OF b, of "tm64_now hw" hw] obtain c' hw' where
      m: "min_flick_branch (tm64_now hw) c hw = Inr (c', hw')"
         "mTmOfLastTouch c' = tm64_now hw"
         "mX c' = ucast ?x" "mY c' = ucast ?y"
         "filter_update ?b (ucast ?x) (mXf c) = Inr (mXf c')"
         "filter_update ?b (ucast ?y) (mYf c) = Inr (mYf c')"
         "spi_pos hw' = spi_pos hw + 2"
      by blast
    have run: "CheckTouch (Some c) hw = Inr (0, Some c', hw')"
      using step h m(1) by simp
    have fx: "mXf c' = mXf c + signed_drop_bit (nat (sint ?b))
                (push_bit 14 (mX c') - mXf c + push_bit (nat (sint ?b - 1)) 1)"
      using m(5) b unfolding m(3) by (simp add: filter_update_def)
    have fy: "mYf c' = mYf c + signed_drop_bit (nat (sint ?b))
                (push_bit 14 (mY c') - mYf c + push_bit (nat (sint ?b - 1)) 1)"
      using m(6) b unfolding m(4) by (simp add: filter_update_def)
    have ix: "sint (mXf c') = sint (mXf c)
                + (push_bit 14 (uint ?x) - sint (mXf c) + 2 ^ (nat (sint ?b) - 1))
                    div 2 ^ nat (sint ?b)"
      if "filter_fits ?b (mX c') (mXf c)"
      using filter_update_value [OF b that [unfolded m(3)] m(5)]
      unfolding sint_ucast_byte .
    have iy: "sint (mYf c') = sint (mYf c)
                + (push_bit 14 (uint ?y) - sint (mYf c) + 2 ^ (nat (sint ?b) - 1))
                    div 2 ^ nat (sint ?b)"
      if "filter_fits ?b (mY c') (mYf c)"
      using filter_update_value [OF b that [unfolded m(4)] m(6)]
      unfolding sint_ucast_byte .
    show ?thesis
      using run m(2,3,4,7) fx fy ix iy by blast
  qed
  have undef: "CheckTouch (Some c) hw = Inl UndefinedShift"
    if "\<not> ?L < elapsed c hw" "?M < elapsed c hw" "31 < sint ?b"
    using step that min_flick_branch_undefined [OF that(3), of "tm64_now hw" hw] by simp
  have idle: "CheckTouch (Some c) hw = Inr (0, Some c, hw)"
    if "\<not> ?L < elapsed c hw" "\<not> ?M < elapsed c hw"
    using step that by simp
  have within: "\<exists>c' hw'. CheckTouch (Some c) hw = Inr (0, Some c', hw')
              \<and> (c' = c \<and> hw' = hw
                   \<or> ?L < elapsed c hw
                     \<and> mXf c' = push_bit 14 (ucast ?x) \<and> mYf c' = push_bit 14 (ucast ?y))"
    if "\<not> ?M < elapsed c hw"
  proof (cases "?L < elapsed c hw")
    case True
    then show ?thesis using step by (simp add: long_flick_branch_fields)
  next
    case False
    then show ?thesis using idle that by simp
  qed
  show ?thesis
    using snap filt undef idle within by blast
qed

text \<open>
  Witness for C6 with the demo configuration (min flick 1000, long press 50000, beta 5,
  last touch at time 0, filtered position (0, 0), raw sample (100, 50)): a tick at 60000
  snaps to (1638400, 819200), a tick at 5000 makes one update to (51200, 25600), a tick
  at 500 changes nothing.
\<close>

theorem CheckTouch_snap_or_filter_witness:
  "(\<exists>c' hw'. CheckTouch (Some demo_control) (demo_hw False 60000) = Inr (0, Some c', hw')
       \<and> mXf c' = 1638400 \<and> mYf c' = 819200 \<and> sint (mXf c') = 1638400
       \<and> mTmOfLastTouch c' = 60000)
 \<and> (\<exists>c' hw'. CheckTouch (Some demo_control) (demo_hw False 5000) = Inr (0, Some c', hw')
       \<and> mXf c' = 51200 \<and> mYf c' = 25600 \<and> sint (mXf c') = 51200 \<and> sint (mYf c') = 25600
       \<and> mTmOfLastTouch c' = 5000)
 \<and> CheckTouch (Some demo_control) (demo_hw False 500) = Inr (0, Some demo_control, demo_hw False 500)"
proof -
  have cfg: "mpHWConfig demo_control = Some demo_hwconfig" "0 < sint (mkBetaShft demo_control)"
    by (simp_all add: demo_control_def)
  have low: "\<not> gpio_get (demo_hw False t) (mGPIO_ispressed demo_hwconfig)" for t
    by (simp add: demo_hw_def)
  have v: "mkTmLongFlick demo_control = 50000" "mkTmMinFlick demo_control = 1000"
    "mkBetaShft demo_control = 5" "mXf demo_control = 0" "mYf demo_control = 0"
    "spi_rx (demo_hw False t) (spi_pos (demo_hw False t)) = 100"
    "spi_rx (demo_hw False t) (spi_pos (demo_hw False t) + 1) = 50" for t
    by (simp_all add: demo_control_def demo_hw_def)
  have fits: "filter_fits 5 100 0" "filter_fits 5 50 0"
    by (simp_all add: filter_fits_def)
  note a = CheckTouch_snap_or_filter [OF cfg low [of 60000],
              unfolded v demo_elapsed]
  note b = CheckTouch_snap_or_filter [OF cfg low [of 5000],
              unfolded v demo_elapsed]
  note c = CheckTouch_snap_or_filter [OF cfg low [of 500],
              unfolded v demo_elapsed]
  have a': "\<exists>c' hw'. CheckTouch (Some demo_control) (demo_hw False 60000) = Inr (0, Some c', hw')
       \<and> mXf c' = 1638400 \<and> mYf c' = 819200 \<and> sint (mXf c') = 1638400
       \<and> mTmOfLastTouch c' = 60000"
    using a by auto
  have b': "\<exists>c' hw'. CheckTouch (Some demo_control) (demo_hw False 5000) = Inr (0, Some c', hw')
       \<and> mXf c' = 51200 \<and> mYf c' = 25600 \<and> sint (mXf c') = 51200 \<and> sint (mYf c') = 25600
       \<and> mTmOfLastTouch c' = 5000"
    using b fits by auto
  have c': "CheckTouch (Some demo_control) (demo_hw False 500)
          = Inr (0, Some demo_control, demo_hw False 500)"
    using c by simp
  show ?thesis using a' b' c' by blast
qed

text \<open>
  Claim C5, as stated: status 1 means "pressed, but no new sample taken", status 0 means
  "pressed and a sample was processed", and a tick that finds the screen not pressed
  sets the processed flag false. The code does none of the three. With the press line
  high (not pressed; the line is active low) it returns 1 and leaves the processed flag
  set; with the press line low 500 us after the last touch, inside the min-flick window,
  it returns 0 although nothing was sampled.
\<close>

theorem CheckTouch_status_counterexample:
  "CheckTouch (Some demo_control) (demo_hw True 500)
     = Inr (1, Some demo_control, demo_hw True 500)
 \<and> mIsProcessed demo_control
 \<and> CheckTouch (Some demo_control) (demo_hw False 500)
     = Inr (0, Some demo_control, demo_hw False 500)"
  by (simp add: CheckTouch_def demo_control_def demo_hw_def Let_def)

text \<open>
  Claim C5, amended: \<open>CheckTouch\<close> returns a negative code exactly when the
  configuration is invalid: -1 for a null control structure, -2 for a null hardware
  configuration or a beta shift of at most 0, and then changes nothing. Otherwise it
  returns 1 exactly when the press line reads high (not pressed), leaving the control
  structure, the processed flag included, and the hardware untouched; and 0 exactly
  when the press line reads low (pressed), whether or not a sample was taken: one
  sample is read and the processed flag set when the elapsed time exceeds the long-press
  or the min-flick threshold, and nothing at all changes otherwise. The one call that
  returns no code is the smoothing update with a beta shift above 31 (elapsed time
  above the min-flick but not above the long-press threshold), whose shift is
  undefined.
\<close>

theorem CheckTouch_status_codes:
  "CheckTouch None hw = Inr (- 1, None, hw)
 \<and> (mpHWConfig c = None \<or> sint (mkBetaShft c) \<le> 0 \<longrightarrow>
       CheckTouch (Some c) hw = Inr (- 2, Some c, hw))
 \<and> ((\<exists>r p' hw'. CheckTouch p hw = Inr (r, p', hw') \<and> r < 0) \<longleftrightarrow> \<not> config_valid p)
 \<and> (mpHWConfig c = Some cfg \<and> 0 < sint (mkBetaShft c) \<and> gpio_get hw (mGPIO_ispressed cfg) \<longrightarrow>
       CheckTouch (Some c) hw = Inr (1, Some c, hw))
 \<and> (mpHWConfig c = Some cfg \<and> 0 < sint (mkBetaShft c) \<and> \<not> gpio_get hw (mGPIO_ispressed cfg) \<longrightarrow>
       (if \<not> scast (mkTmLongFlick c) < elapsed c hw \<and> scast (mkTmMinFlick c) < elapsed c hw
           \<and> 31 < sint (mkBetaShft c)
        then CheckTouch (Some c) hw = Inl UndefinedShift
        else (\<exists>c' hw'. CheckTouch (Some c) hw = Inr (0, Some c', hw')
          \<and> (if scast (mkTmLongFlick c) < elapsed c hw
                \<or> scast (mkTmMinFlick c) < elapsed c hw
              then mIsProcessed c' \<and> spi_pos hw' = spi_pos hw + 2
              else c' = c \<and> hw' = hw))))"
proof -
  have pressed: "(if \<not> scast (mkTmLongFlick c0) < elapsed c0 hw \<and> scast (mkTmMinFlick c0) < elapsed c0 hw
           \<and> 31 < sint (mkBetaShft c0)
        then CheckTouch (Some c0) hw = Inl UndefinedShift
        else (\<exists>c' hw'. CheckTouch (Some c0) hw = Inr (0, Some c', hw')
          \<and> (if scast (mkTmLongFlick c0) < elapsed c0 hw
                \<or> scast (mkTmMinFlick c0) < elapsed c0 hw
              then mIsProcessed c' \<and> spi_pos hw' = spi_pos hw + 2
              else c' = c0 \<and> hw' = hw)))"
    if h: "mpHWConfig c0 = Some cfg0" "0 < sint (mkBetaShft c0)"
          "\<not> gpio_get hw (mGPIO_ispressed cfg0)" for c0 cfg0
  proof -
    note step = CheckTouch_pressed [OF h]
    consider (snap) "scast (mkTmLongFlick c0) < elapsed c0 hw"
      | (undef) "\<not> scast (mkTmLongFlick c0) < elapsed c0 hw"
                "scast (mkTmMinFlick c0) < elapsed c0 hw" "31 < sint (mkBetaShft c0)"
      | (filt) "\<not> scast (mkTmLongFlick c0) < elapsed c0 hw"
               "scast (mkTmMinFlick c0) < elapsed c0 hw" "sint (mkBetaShft c0) \<le> 31"
      | (idle) "\<not> scast (mkTmLongFlick c0) < elapsed c0 hw"
               "\<not> scast (mkTmMinFlick c0) < elapsed c0 hw"
      by linarith
    then show ?thesis
    proof cases
      case snap
      then show ?thesis using step by (simp add: long_flick_branch_fields)
    next
      case undef
      then show ?thesis
        using step min_flick_branch_undefined [OF undef(3), of "tm64_now hw" hw] by simp
    next
      case filt
      have b: "1 \<le> sint (mkBetaShft c0)" "sint (mkBetaShft c0) \<le> 31" using h(2) filt(3) by simp_all
      from min_flick_branch_defined [OF b, of "tm64_now hw" hw] obtain c' hw' where
        m: "min_flick_branch (tm64_now hw) c0 hw = Inr (c', hw')" "mIsProcessed c'"
           "spi_pos hw' = spi_pos hw + 2" by blast
      have "CheckTouch (Some c0) hw = Inr (0, Some c', hw')" using step filt m(1) by simp
      then show ?thesis using filt m(2,3) by simp
    next
      case idle
      then show ?thesis using step by simp
    qed
  qed
  have neg: "(\<exists>r p' hw'. CheckTouch p hw = Inr (r, p', hw') \<and> r < 0) \<longleftrightarrow> \<not> config_valid p"
  proof (cases p)
    case None
    then show ?thesis by (simp add: CheckTouch_null config_valid_def)
  next
    case (Some c0)
    show ?thesis
    proof (cases "mpHWConfig c0 = None \<or> sint (mkBetaShft c0) \<le> 0")
      case True
      then show ?thesis using Some CheckTouch_badcfg [OF True, of hw]
        by (auto simp: config_valid_def)
    next
      case False
      then obtain cfg0 where c0: "mpHWConfig c0 = Some cfg0" "0 < sint (mkBetaShft c0)" by auto
      show ?thesis
      proof (cases "gpio_get hw (mGPIO_ispressed cfg0)")
        case True
        then show ?thesis using Some c0 CheckTouch_released [OF c0 True]
          by (simp add: config_valid_def)
      next
        case False
        from pressed [OF c0 False] have "\<not> (\<exists>r p' hw'. CheckTouch (Some c0) hw = Inr (r, p', hw') \<and> r < 0)"
          by (auto split: if_splits)
        then show ?thesis using Some c0 by (simp add: config_valid_def)
      qed
    qed
  qed
  show ?thesis
    using neg pressed [of c cfg] CheckTouch_null CheckTouch_badcfg [of c hw]
      CheckTouch_released [of c cfg hw]
    by blast
qed

text \<open>
  Witness for C5 on the demo configuration: beta 0 gives -2, a released screen gives 1,
  a press 60000 us after the last touch gives 0 with one sample read, and a press
  5000 us after the last touch with beta 32 is the undefined shift.
\<close>

theorem CheckTouch_status_codes_witness:
  "CheckTouch (Some (demo_control\<lparr>mkBetaShft := 0\<rparr>)) (demo_hw False 500)
     = Inr (- 2, Some (demo_control\<lparr>mkBetaShft := 0\<rparr>), demo_hw False 500)
 \<and> CheckTouch (Some demo_control) (demo_hw True 60000)
     = Inr (1, Some demo_control, demo_hw True 60000)
 \<and> (\<exists>c' hw'. CheckTouch (Some demo_control) (demo_hw False 60000) = Inr (0, Some c', hw')
        \<and> mIsProcessed c' \<and> spi_pos hw' = 2)
 \<and> \<not> (\<exists>r p' hw'. CheckTouch (Some demo_control) (demo_hw False 60000) = Inr (r, p', hw') \<and> r < 0)
 \<and> CheckTouch (Some (demo_control\<lparr>mkBetaShft := 32\<rparr>)) (demo_hw False 5000) = Inl UndefinedShift"
proof -
  have cfg: "mpHWConfig demo_control = Some demo_hwconfig" "0 < sint (mkBetaShft demo_control)"
    by (simp_all add: demo_control_def)
  have v: "mkTmLongFlick demo_control = 50000" "mkTmMinFlick demo_control = 1000"
    "gpio_get (demo_hw level t) pin = level" "spi_pos (demo_hw level t) = 0" for level t pin
    by (simp_all add: demo_control_def demo_hw_def)
  have valid: "config_valid (Some demo_control)"
    by (simp add: config_valid_def demo_control_def)
  have e32: "elapsed (demo_control\<lparr>mkBetaShft := 32\<rparr>) (demo_hw False 5000) = 5000"
    by (simp add: elapsed_def tm64_now_def demo_control_def demo_hw_def)
  note w1 = CheckTouch_status_codes [of "demo_hw False 500" "demo_control\<lparr>mkBetaShft := 0\<rparr>"
             "Some demo_control" demo_hwconfig]
  note w2 = CheckTouch_status_codes [of "demo_hw True 60000" demo_control
             "Some demo_control" demo_hwconfig]
  note w3 = CheckTouch_status_codes [of "demo_hw False 60000" demo_control
             "Some demo_control" demo_hwconfig, unfolded demo_elapsed]
  note w4 = CheckTouch_status_codes [of "demo_hw False 5000" "demo_control\<lparr>mkBetaShft := 32\<rparr>"
             "Some demo_control" demo_hwconfig, unfolded e32]
  have a1: "CheckTouch (Some (demo_control\<lparr>mkBetaShft := 0\<rparr>)) (demo_hw False 500)
     = Inr (- 2, Some (demo_control\<lparr>mkBetaShft := 0\<rparr>), demo_hw False 500)"
    using w1 by simp
  have a2: "CheckTouch (Some demo_control) (demo_hw True 60000)
     = Inr (1, Some demo_control, demo_hw True 60000)"
    using w2 by (simp add: cfg v)
  have a3: "\<exists>c' hw'. CheckTouch (Some demo_control) (demo_hw False 60000) = Inr (0, Some c', hw')
        \<and> mIsProcessed c' \<and> spi_pos hw' = 2"
    using w3 by (auto simp add: cfg v)
  have a4: "\<not> (\<exists>r p' hw'. CheckTouch (Some demo_control) (demo_hw False 60000) = Inr (r, p', hw') \<and> r < 0)"
    using w3 valid by blast
  have a5: "CheckTouch (Some (demo_control\<lparr>mkBetaShft := 32\<rparr>)) (demo_hw False 5000) = Inl UndefinedShift"
    using w4 by (simp add: demo_control_def demo_hw_def)
  show ?thesis using a1 a2 a3 a4 a5 by blast
qed

section \<open>Properties of the selective write\<close>


lemmas dims = PIX_WIDTH_def PIX_HEIGHT_def PIX_BITCOUNT_def PIX_W32COUNT_def PIX_BYTE_STRIDE_def
  TEXT_HEIGHT_def TEXT_WIDTH_def TEXT_CHARCOUNT_def

declare selective_row.simps [simp del] selective_rows.simps [simp del]

lemma TEXT_WIDTH_pos: "0 < TEXT_WIDTH" by (simp add: dims)

lemma selective_row_scan:
  "i \<le> TEXT_WIDTH \<Longrightarrow>
   selective_row pscr j i n = scan_blocks pscr [j * TEXT_WIDTH + i ..< j * TEXT_WIDTH + TEXT_WIDTH] n"
proof (induction pscr j i n rule: selective_row.induct)
  case (1 pscr j i n)
  show ?case
  proof (cases "i < TEXT_WIDTH")
    case False
    then have "selective_row pscr j i n = (False, pscr, n)"
      by (simp add: selective_row.simps [of pscr j i n])
    moreover from False "1.prems" have "i = TEXT_WIDTH" by simp
    ultimately show ?thesis by simp
  next
    case True
    then have upt: "[j * TEXT_WIDTH + i ..< j * TEXT_WIDTH + TEXT_WIDTH]
                  = (j * TEXT_WIDTH + i) # [j * TEXT_WIDTH + (i + 1) ..< j * TEXT_WIDTH + TEXT_WIDTH]"
      by (simp add: upt_conv_Cons)
    have md: "(j * TEXT_WIDTH + i) mod TEXT_WIDTH = i" "(j * TEXT_WIDTH + i) div TEXT_WIDTH = j"
      using True by simp_all
    from True have le: "i + 1 \<le> TEXT_WIDTH" by simp
    show ?thesis
    proof (cases "attr_dirty (mpColorBuffer pscr ! (j * TEXT_WIDTH + i))")
      case dirty: True
      show ?thesis
      proof (cases "n - 1 = 0")
        case True
        then show ?thesis
          using \<open>i < TEXT_WIDTH\<close> dirty
          by (subst selective_row.simps) (simp add: upt md del: upt_Suc)
      next
        case False
        from "1.IH"(1) [OF \<open>i < TEXT_WIDTH\<close> dirty False le] show ?thesis
          using \<open>i < TEXT_WIDTH\<close> dirty False
          by (subst selective_row.simps) (simp add: upt md del: upt_Suc)
      qed
    next
      case clean: False
      from "1.IH"(2) [OF \<open>i < TEXT_WIDTH\<close> clean le] show ?thesis
        using \<open>i < TEXT_WIDTH\<close> clean
        by (subst selective_row.simps) (simp add: upt md del: upt_Suc)
    qed
  qed
qed

lemma scan_blocks_append:
  "scan_blocks pscr (xs @ ys) n =
     (case scan_blocks pscr xs n of
        (True, pscr', n') \<Rightarrow> (True, pscr', n')
      | (False, pscr', n') \<Rightarrow> scan_blocks pscr' ys n')"
  by (induction xs arbitrary: pscr n) auto

lemma selective_rows_scan:
  "j \<le> TEXT_HEIGHT \<Longrightarrow>
   selective_rows pscr j n =
     (case scan_blocks pscr [j * TEXT_WIDTH ..< TEXT_CHARCOUNT] n of
        (stopped, pscr', n') \<Rightarrow> (if stopped then 0 else 1, pscr'))"
proof (induction pscr j n rule: selective_rows.induct)
  case (1 pscr j n)
  show ?case
  proof (cases "j < TEXT_HEIGHT")
    case False
    then have "selective_rows pscr j n = (1, pscr)"
      by (simp add: selective_rows.simps [of pscr j n])
    moreover from False "1.prems" have "j = TEXT_HEIGHT" by simp
    ultimately show ?thesis by (simp add: TEXT_CHARCOUNT_def)
  next
    case True
    have "j * TEXT_WIDTH + TEXT_WIDTH = (j + 1) * TEXT_WIDTH" by simp
    also have "\<dots> \<le> TEXT_HEIGHT * TEXT_WIDTH"
      using True by (intro mult_le_mono1) simp
    finally have le: "j * TEXT_WIDTH + TEXT_WIDTH \<le> TEXT_CHARCOUNT"
      by (simp add: TEXT_CHARCOUNT_def)
    then obtain d where d: "TEXT_CHARCOUNT = j * TEXT_WIDTH + TEXT_WIDTH + d"
      using le_Suc_ex by blast
    have split: "[j * TEXT_WIDTH ..< TEXT_CHARCOUNT]
        = [j * TEXT_WIDTH + 0 ..< j * TEXT_WIDTH + TEXT_WIDTH] @ [(j + 1) * TEXT_WIDTH ..< TEXT_CHARCOUNT]"
      unfolding d using upt_add_eq_append [of "j * TEXT_WIDTH" "j * TEXT_WIDTH + TEXT_WIDTH" d]
      by (simp add: add.commute del: upt_Suc)
    obtain b p' n' where row: "selective_row pscr j 0 n = (b, p', n')"
      by (cases "selective_row pscr j 0 n") auto
    then have scan: "scan_blocks pscr [j * TEXT_WIDTH + 0 ..< j * TEXT_WIDTH + TEXT_WIDTH] n = (b, p', n')"
      using selective_row_scan [of 0 pscr j n] by simp
    show ?thesis
    proof (cases b)
      case True
      then show ?thesis
        using \<open>j < TEXT_HEIGHT\<close> row scan
        by (subst selective_rows.simps) (simp add: split scan_blocks_append del: upt_Suc)
    next
      case False
      from \<open>j < TEXT_HEIGHT\<close> have "j + 1 \<le> TEXT_HEIGHT" by simp
      have "selective_rows p' (j + 1) n' =
            (case scan_blocks p' [(j + 1) * TEXT_WIDTH..<TEXT_CHARCOUNT] n' of
               (stopped, pscr', n') \<Rightarrow> (if stopped then 0 else 1, pscr'))"
        using "1.IH" [of b "(p', n')" p' n'] \<open>j < TEXT_HEIGHT\<close> row False by simp
      then
      show ?thesis
        using \<open>j < TEXT_HEIGHT\<close> row scan False
        by (subst selective_rows.simps) (simp add: split scan_blocks_append del: upt_Suc)
    qed
  qed
qed




lemma attr_dirty_iff: "attr_dirty a \<longleftrightarrow> bit a 6"
  by (simp add: attr_dirty_def bit_and_iff bit_drop_bit_eq)

lemma dirty_mask_keeps_ink: "NOT (push_bit 6 1) AND (7 :: 8 word) = 7" by simp
lemma dirty_mask_keeps_paper: "drop_bit 3 (NOT (push_bit 6 1) :: 8 word) AND 7 = 7" by simp

lemma attr_clear_dirty [simp]:
  "\<not> attr_dirty (a AND NOT (push_bit 6 1))"
  "attr_ink (a AND NOT (push_bit 6 1)) = attr_ink a"
  "attr_paper (a AND NOT (push_bit 6 1)) = attr_paper a"
proof -
  show "\<not> attr_dirty (a AND NOT (push_bit 6 1))"
    by (simp add: attr_dirty_iff bit_and_iff bit_not_iff bit_push_bit_iff)
  have "(a AND NOT (push_bit 6 1)) AND 7 = a AND (NOT (push_bit 6 1) AND 7)"
    by (simp only: and.assoc)
  then show "attr_ink (a AND NOT (push_bit 6 1)) = attr_ink a"
    by (simp only: attr_ink_def dirty_mask_keeps_ink)
  have "drop_bit 3 (a AND NOT (push_bit 6 1)) AND 7
      = drop_bit 3 a AND (drop_bit 3 (NOT (push_bit 6 1)) AND 7)"
    by (simp only: drop_bit_and and.assoc)
  then show "attr_paper (a AND NOT (push_bit 6 1)) = attr_paper a"
    by (simp only: attr_paper_def dirty_mask_keeps_paper)
qed

lemma budget_pos: "0 < budget n"
  by (simp add: budget_def unat_gt_0)

lemma budget_one: "budget n = 1 \<longleftrightarrow> n = 1"
proof
  assume b: "budget n = 1"
  then have "n \<noteq> 0" by (auto simp: budget_def)
  with b have "unat n = unat (1 :: 32 word)" by (simp add: budget_def)
  then show "n = 1" by (simp only: word_unat_eq_iff)
qed (simp add: budget_def)

lemma unat_minus_one_32: "unat (- 1 :: 32 word) = 4294967295"
  by (simp add: unsigned_minus_1_eq_mask mask_eq_exp_minus_1)

lemma budget_dec: "n \<noteq> 1 \<Longrightarrow> budget (n - 1) = budget n - 1"
proof (cases "n = 0")
  case True
  then show ?thesis by (simp add: budget_def unat_minus_one_32)
next
  case False
  assume "n \<noteq> 1"
  then have "n - 1 \<noteq> 0" by simp
  then show ?thesis using False by (simp add: budget_def unat_minus_one)
qed


lemma attr_clear_dirty' [simp]:
  "\<not> attr_dirty (a AND - 65)"
  "attr_ink (a AND - 65) = attr_ink a"
  "attr_paper (a AND - 65) = attr_paper a"
proof -
  have "NOT (push_bit 6 1) = (- 65 :: 8 word)" by simp
  then have eq: "a AND - 65 = a AND NOT (push_bit 6 1)" by (simp only:)
  show "\<not> attr_dirty (a AND - 65)" "attr_ink (a AND - 65) = attr_ink a"
       "attr_paper (a AND - 65) = attr_paper a"
    unfolding eq by (rule attr_clear_dirty)+
qed


lemma nth_list_update_any:
  "xs[a := v] ! k = (if k = a \<and> a < length xs then v else xs ! k)"
  by (cases "a < length xs") (auto simp: nth_list_update list_update_beyond)

lemma block_index: "(k div TEXT_WIDTH) * TEXT_WIDTH + k mod TEXT_WIDTH = k"
  by simp

lemma TftSymbolWrite_fields:
  "mpColorBuffer (TftSymbolWrite pscr (k mod TEXT_WIDTH) (k div TEXT_WIDTH))
     = (mpColorBuffer pscr)[k := mpColorBuffer pscr ! k AND NOT (push_bit 6 1)]"
  "mpPixBuffer (TftSymbolWrite pscr x y) = mpPixBuffer pscr"
  "mCursorX (TftSymbolWrite pscr x y) = mCursorX pscr"
  "mCursorY (TftSymbolWrite pscr x y) = mCursorY pscr"
  "mCanvasPaper (TftSymbolWrite pscr x y) = mCanvasPaper pscr"
  "mCanvasInk (TftSymbolWrite pscr x y) = mCanvasInk pscr"
  "length (mpColorBuffer (TftSymbolWrite pscr x y)) = length (mpColorBuffer pscr)"
  by (simp_all add: TftSymbolWrite_def Let_def)

lemma TftSymbolWrite_out:
  "spi_tx (TftSymbolWrite pscr (k mod TEXT_WIDTH) (k div TEXT_WIDTH)) = spi_tx pscr @ block_out pscr k"
  by (simp add: TftSymbolWrite_def block_out_def symbol_line_def Let_def push_bit_eq_mult
        mult.commute add.assoc del: upt_Suc)



lemma write_blocks_simps [simp]:
  "write_blocks pscr [] = pscr"
  "write_blocks pscr (k # ks) = write_blocks (sw k pscr) ks"
  by (simp_all add: write_blocks_def)

lemma dirty_other:
  "k' \<noteq> k \<Longrightarrow> attr_dirty (mpColorBuffer (sw k pscr) ! k') = attr_dirty (mpColorBuffer pscr ! k')"
  by (simp add: TftSymbolWrite_fields)

lemma scan_blocks_budget:
  "distinct ks \<Longrightarrow>
   fst (scan_blocks pscr ks n)
     = (budget n \<le> length (filter (\<lambda>k. attr_dirty (mpColorBuffer pscr ! k)) ks))
 \<and> fst (snd (scan_blocks pscr ks n))
     = write_blocks pscr (take (budget n) (filter (\<lambda>k. attr_dirty (mpColorBuffer pscr ! k)) ks))"
proof (induction ks arbitrary: pscr n)
  case Nil
  show ?case using budget_pos [of n] by simp
next
  case (Cons k ks)
  from Cons.prems have k: "k \<notin> set ks" and d: "distinct ks" by simp_all
  show ?case
  proof (cases "attr_dirty (mpColorBuffer pscr ! k)")
    case False
    then show ?thesis using Cons.IH [OF d, of pscr n] by simp
  next
    case True
    show ?thesis
    proof (cases "n = 1")
      case n1: True
      then show ?thesis using True by (simp add: budget_def)
    next
      case False
      then have nz: "n - 1 \<noteq> 0" by simp
      have same: "filter (\<lambda>k'. attr_dirty (mpColorBuffer (sw k pscr) ! k')) ks
                = filter (\<lambda>k'. attr_dirty (mpColorBuffer pscr ! k')) ks"
        using k by (intro filter_cong refl dirty_other) auto
      have b2: "budget n = Suc (budget (n - 1))"
        using budget_dec [OF False] budget_pos [of n] by simp
      show ?thesis
        using Cons.IH [OF d, of "sw k pscr" "n - 1"] True nz
        by (simp add: same b2)
    qed
  qed
qed

lemma TftFullScreenSelectiveWrite_eq:
  "TftFullScreenSelectiveWrite pscr n
     = (if budget n \<le> length (dirty_blocks pscr) then 0 else 1,
        write_blocks pscr (take (budget n) (dirty_blocks pscr)))"
proof -
  obtain b p' n' where sc: "scan_blocks pscr [0 * TEXT_WIDTH ..< TEXT_CHARCOUNT] n = (b, p', n')"
    by (cases "scan_blocks pscr [0 * TEXT_WIDTH ..< TEXT_CHARCOUNT] n") auto
  from scan_blocks_budget [of "[0 * TEXT_WIDTH ..< TEXT_CHARCOUNT]" pscr n]
  have "b = (budget n \<le> length (dirty_blocks pscr))"
       "p' = write_blocks pscr (take (budget n) (dirty_blocks pscr))"
    unfolding sc by (simp_all add: dirty_blocks_def)
  then show ?thesis
    unfolding TftFullScreenSelectiveWrite_def
    using selective_rows_scan [of 0 pscr n] sc by simp
qed

lemma write_blocks_fields:
  "mpPixBuffer (write_blocks pscr ks) = mpPixBuffer pscr"
  "mCursorX (write_blocks pscr ks) = mCursorX pscr"
  "mCursorY (write_blocks pscr ks) = mCursorY pscr"
  "mCanvasPaper (write_blocks pscr ks) = mCanvasPaper pscr"
  "mCanvasInk (write_blocks pscr ks) = mCanvasInk pscr"
  "length (mpColorBuffer (write_blocks pscr ks)) = length (mpColorBuffer pscr)"
  by (induction ks arbitrary: pscr; simp add: TftSymbolWrite_fields)+

lemma write_blocks_attr:
  "k < length (mpColorBuffer pscr) \<Longrightarrow>
   mpColorBuffer (write_blocks pscr ks) ! k
     = (if k \<in> set ks then mpColorBuffer pscr ! k AND NOT (push_bit 6 1) else mpColorBuffer pscr ! k)"
proof (induction ks arbitrary: pscr)
  case Nil
  show ?case by simp
next
  case (Cons a ks)
  have len: "k < length (mpColorBuffer (sw a pscr))"
    using Cons.prems by (simp add: TftSymbolWrite_fields)
  have idem: "(x AND - 65) AND - 65 = x AND - 65" for x :: "8 word"
    by (simp add: and.assoc)
  show ?case
    using Cons.IH [OF len] Cons.prems
    by (auto simp: TftSymbolWrite_fields nth_list_update_any idem)
qed

lemma block_out_cong:
  assumes "mpPixBuffer p' = mpPixBuffer p"
      and "attr_ink (mpColorBuffer p' ! k) = attr_ink (mpColorBuffer p ! k)"
      and "attr_paper (mpColorBuffer p' ! k) = attr_paper (mpColorBuffer p ! k)"
  shows "block_out p' k = block_out p k"
  using assms by (simp add: block_out_def Let_def del: upt_Suc)

lemma block_out_sw: "block_out (sw a p) k = block_out p k"
proof (rule block_out_cong)
  show "mpPixBuffer (sw a p) = mpPixBuffer p" by (simp add: TftSymbolWrite_fields)
  show "attr_ink (mpColorBuffer (sw a p) ! k) = attr_ink (mpColorBuffer p ! k)"
    by (simp add: TftSymbolWrite_fields nth_list_update_any)
  show "attr_paper (mpColorBuffer (sw a p) ! k) = attr_paper (mpColorBuffer p ! k)"
    by (simp add: TftSymbolWrite_fields nth_list_update_any)
qed

lemma write_blocks_out:
  "spi_tx (write_blocks pscr ks) = spi_tx pscr @ concat (map (block_out pscr) ks)"
proof (induction ks arbitrary: pscr)
  case Nil
  show ?case by simp
next
  case (Cons a ks)
  show ?case
    using Cons.IH [of "sw a pscr"] by (simp add: TftSymbolWrite_out block_out_sw)
qed

lemma dirty_blocks_write:
  assumes "length (mpColorBuffer pscr) = TEXT_CHARCOUNT"
  shows "dirty_blocks (write_blocks pscr ks) = filter (\<lambda>k. k \<notin> set ks) (dirty_blocks pscr)"
proof -
  have "attr_dirty (mpColorBuffer (write_blocks pscr ks) ! k)
        \<longleftrightarrow> attr_dirty (mpColorBuffer pscr ! k) \<and> k \<notin> set ks"
    if "k \<in> set [0..<TEXT_CHARCOUNT]" for k
    using that assms by (simp add: write_blocks_attr)
  then show ?thesis
    unfolding dirty_blocks_def filter_filter by (intro filter_cong refl) blast
qed

lemma dirty_blocks_sorted: "sorted (dirty_blocks pscr) \<and> distinct (dirty_blocks pscr)"
  by (simp add: dirty_blocks_def sorted_wrt_filter)

lemma filter_notin_take:
  "distinct xs \<Longrightarrow> filter (\<lambda>k. k \<notin> set (take b xs)) xs = drop b xs"
proof (induction xs arbitrary: b)
  case Nil
  show ?case by simp
next
  case (Cons x xs)
  show ?case
  proof (cases b)
    case 0
    then show ?thesis by simp
  next
    case (Suc b')
    have "filter (\<lambda>k. k \<noteq> x \<and> k \<notin> set (take b' xs)) xs = filter (\<lambda>k. k \<notin> set (take b' xs)) xs"
      using Cons.prems by (intro filter_cong refl) auto
    then show ?thesis using Cons Suc by simp
  qed
qed

lemma dirty_blocks_after:
  assumes "length (mpColorBuffer pscr) = TEXT_CHARCOUNT"
  shows "dirty_blocks (write_blocks pscr (take b (dirty_blocks pscr))) = drop b (dirty_blocks pscr)"
  using dirty_blocks_write [OF assms] dirty_blocks_sorted [of pscr]
  by (simp add: filter_notin_take)

lemma dirty_blocks_length: "length (dirty_blocks pscr) \<le> TEXT_CHARCOUNT"
  using length_filter_le [of _ "[0..<TEXT_CHARCOUNT]"] by (simp add: dirty_blocks_def)



lemma budget_positive: "1 \<le> sint n \<Longrightarrow> budget n = nat (sint n)"
proof -
  assume a: "1 \<le> sint n"
  have "sint n < 2 ^ 32" using sint_lt [of n] by simp
  then have "take_bit 32 (sint n) = sint n" using a by (simp add: take_bit_int_eq_self)
  then have u: "uint n = sint n" using uint_sint [of n] by simp
  then have "unat n = nat (sint n)" by (metis nat_uint_eq)
  moreover have "n \<noteq> 0" using a by auto
  ultimately show ?thesis by (simp add: budget_def)
qed

lemma budget_nonpositive: "sint n \<le> 0 \<Longrightarrow> TEXT_CHARCOUNT < budget n"
proof (cases "n = 0")
  case True
  then show ?thesis by (simp add: budget_def dims)
next
  case False
  assume "sint n \<le> 0"
  moreover have "sint n \<noteq> 0" using False by (metis signed_eq_0_iff)
  ultimately have neg: "sint n < 0" by simp
  have lo: "- (2 ^ 31) \<le> sint n" using sint_ge [of n] by simp
  have "take_bit 32 (sint n) = take_bit 32 (sint n + 2 ^ 32)"
    by (simp add: take_bit_eq_mod)
  also have "\<dots> = sint n + 2 ^ 32" using neg lo by (simp add: take_bit_int_eq_self)
  finally have "uint n = sint n + 2 ^ 32" using uint_sint [of n] by simp
  then have "2 ^ 31 \<le> uint n" using lo by simp
  moreover have "int (unat n) = uint n" by simp
  ultimately have "(2147483648::int) \<le> int (unat n)" by simp
  then have "2147483648 \<le> unat n" by linarith
  then show ?thesis using False by (simp add: budget_def dims)
qed





lemma filter_upt_single:
  assumes "a < n" "P a" "\<And>k. k < n \<Longrightarrow> k \<noteq> a \<Longrightarrow> \<not> P k"
  shows "filter P [0..<n] = [a]"
proof -
  have split: "[0..<n] = [0..<a] @ a # [Suc a..<n]"
    using assms(1) by (metis le_add1 less_imp_add_positive plus_nat.add_0 upt_add_eq_append upt_conv_Cons)
  have "filter P [0..<a] = []" using assms by (auto simp: filter_empty_conv)
  moreover have "filter P [Suc a..<n] = []" using assms by (auto simp: filter_empty_conv)
  ultimately show ?thesis unfolding split using assms(2) by simp
qed

lemma one_dirty_screen_dirty: "dirty_blocks one_dirty_screen = [31]"
  unfolding dirty_blocks_def
  by (rule filter_upt_single)
     (simp_all add: one_dirty_screen_def blank_screen_def dims attr_dirty_iff nth_list_update)

lemma cleared_screen_dirty: "dirty_blocks cleared_screen = [0..<TEXT_CHARCOUNT]"
  unfolding dirty_blocks_def
  by (rule filter_True) (simp add: cleared_screen_def blank_screen_def attr_dirty_iff)

lemma demo_screens_wf:
  "screen_wf one_dirty_screen" "screen_wf cleared_screen" "screen_wf blank_screen"
  by (simp_all add: screen_wf_def one_dirty_screen_def cleared_screen_def blank_screen_def)

lemma flush_when_clean:
  "dirty_blocks pscr = [] \<Longrightarrow> TftFullScreenSelectiveWrite pscr m = (1, pscr)"
  using budget_pos [of m] by (simp add: TftFullScreenSelectiveWrite_eq)

text \<open>
  Claim C2: for every screen buffer and every budget of at least 1, the selective write
  takes the dirty blocks in row-major order (\<open>ds\<close>, ascending block indices), writes
  the first \<open>maxBlocks\<close> of them to the transport, each as its window and its 64
  colours, and clears the dirty flag of exactly those blocks; it returns 0 exactly when
  \<open>maxBlocks\<close> blocks have been written and 1 otherwise, and when it returns 1 every
  dirty block was written and none remains. After a flush with a budget of at least the
  number of blocks no dirty block remains, and a repeated call, with any budget \<open>m\<close>,
  writes nothing and returns 1.
\<close>

theorem selective_write_budgeted:
  assumes "screen_wf pscr" and "1 \<le> sint nblock_max"
  shows "let ds = dirty_blocks pscr;
             written = take (nat (sint nblock_max)) ds;
             rc = fst (TftFullScreenSelectiveWrite pscr nblock_max);
             pscr' = snd (TftFullScreenSelectiveWrite pscr nblock_max)
         in sorted ds \<and> distinct ds
          \<and> pscr' = write_blocks pscr written
          \<and> spi_tx pscr' = spi_tx pscr @ concat (map (block_out pscr) written)
          \<and> mpPixBuffer pscr' = mpPixBuffer pscr
          \<and> (\<forall>k < TEXT_CHARCOUNT. mpColorBuffer pscr' ! k =
                (if k \<in> set written then mpColorBuffer pscr ! k AND NOT (push_bit 6 1)
                 else mpColorBuffer pscr ! k))
          \<and> dirty_blocks pscr' = drop (nat (sint nblock_max)) ds
          \<and> rc = (if nat (sint nblock_max) \<le> length ds then 0 else 1)
          \<and> (rc = 0 \<longleftrightarrow> length written = nat (sint nblock_max))
          \<and> (rc = 1 \<longrightarrow> written = ds \<and> dirty_blocks pscr' = [])
          \<and> (int TEXT_CHARCOUNT \<le> sint nblock_max \<longrightarrow>
                dirty_blocks pscr' = []
              \<and> TftFullScreenSelectiveWrite pscr' m = (1, pscr'))"
proof -
  let ?ds = "dirty_blocks pscr" and ?b = "nat (sint nblock_max)"
  let ?p' = "write_blocks pscr (take ?b ?ds)"
  have len: "length (mpColorBuffer pscr) = TEXT_CHARCOUNT"
    using assms(1) by (simp add: screen_wf_def)
  have b: "budget nblock_max = ?b" by (rule budget_positive [OF assms(2)])
  have eq: "TftFullScreenSelectiveWrite pscr nblock_max = (if ?b \<le> length ?ds then 0 else 1, ?p')"
    by (simp add: TftFullScreenSelectiveWrite_eq b)
  have attr: "\<forall>k < TEXT_CHARCOUNT. mpColorBuffer ?p' ! k =
                (if k \<in> set (take ?b ?ds) then mpColorBuffer pscr ! k AND NOT (push_bit 6 1)
                 else mpColorBuffer pscr ! k)"
    using len write_blocks_attr [of _ pscr "take ?b ?ds"] by simp
  have rest: "dirty_blocks ?p' = drop ?b ?ds" by (rule dirty_blocks_after [OF len])
  have big: "int TEXT_CHARCOUNT \<le> sint nblock_max \<longrightarrow>
                dirty_blocks ?p' = [] \<and> TftFullScreenSelectiveWrite ?p' m = (1, ?p')"
  proof
    assume "int TEXT_CHARCOUNT \<le> sint nblock_max"
    then have "length ?ds \<le> ?b" using dirty_blocks_length [of pscr] by linarith
    then have "dirty_blocks ?p' = []" using rest by simp
    then show "dirty_blocks ?p' = [] \<and> TftFullScreenSelectiveWrite ?p' m = (1, ?p')"
      using flush_when_clean by simp
  qed
  have len: "(length (take ?b ?ds) = ?b) = (?b \<le> length ?ds)" by auto
  have all: "\<not> ?b \<le> length ?ds \<Longrightarrow> take ?b ?ds = ?ds \<and> drop ?b ?ds = []" by simp
  have "sorted ?ds \<and> distinct ?ds
      \<and> ?p' = write_blocks pscr (take ?b ?ds)
      \<and> spi_tx ?p' = spi_tx pscr @ concat (map (block_out pscr) (take ?b ?ds))
      \<and> mpPixBuffer ?p' = mpPixBuffer pscr
      \<and> (\<forall>k < TEXT_CHARCOUNT. mpColorBuffer ?p' ! k =
                (if k \<in> set (take ?b ?ds) then mpColorBuffer pscr ! k AND NOT (push_bit 6 1)
                 else mpColorBuffer pscr ! k))
      \<and> dirty_blocks ?p' = drop ?b ?ds
      \<and> (if ?b \<le> length ?ds then 0 else 1) = (if ?b \<le> length ?ds then 0 else (1::int))
      \<and> ((if ?b \<le> length ?ds then 0 else 1) = (0::int) \<longleftrightarrow> length (take ?b ?ds) = ?b)
      \<and> ((if ?b \<le> length ?ds then 0 else 1) = (1::int) \<longrightarrow> take ?b ?ds = ?ds \<and> dirty_blocks ?p' = [])
      \<and> (int TEXT_CHARCOUNT \<le> sint nblock_max \<longrightarrow>
                dirty_blocks ?p' = [] \<and> TftFullScreenSelectiveWrite ?p' m = (1, ?p'))"
  proof (intro conjI)
    show "sorted ?ds" "distinct ?ds" using dirty_blocks_sorted [of pscr] by simp_all
    show "?p' = write_blocks pscr (take ?b ?ds)" by (rule refl)
    show "spi_tx ?p' = spi_tx pscr @ concat (map (block_out pscr) (take ?b ?ds))"
      by (rule write_blocks_out)
    show "mpPixBuffer ?p' = mpPixBuffer pscr" by (rule write_blocks_fields)
    show "\<forall>k < TEXT_CHARCOUNT. mpColorBuffer ?p' ! k =
                (if k \<in> set (take ?b ?ds) then mpColorBuffer pscr ! k AND NOT (push_bit 6 1)
                 else mpColorBuffer pscr ! k)" by (rule attr)
    show "dirty_blocks ?p' = drop ?b ?ds" by (rule rest)
    show "(if ?b \<le> length ?ds then 0 else 1) = (if ?b \<le> length ?ds then 0 else (1::int))"
      by (rule refl)
    show "(if ?b \<le> length ?ds then 0 else 1) = (0::int) \<longleftrightarrow> length (take ?b ?ds) = ?b"
      unfolding len by simp
    show "(if ?b \<le> length ?ds then 0 else 1) = (1::int) \<longrightarrow> take ?b ?ds = ?ds \<and> dirty_blocks ?p' = []"
      unfolding rest using all by (cases "?b \<le> length ?ds") simp_all
    show "int TEXT_CHARCOUNT \<le> sint nblock_max \<longrightarrow>
                dirty_blocks ?p' = [] \<and> TftFullScreenSelectiveWrite ?p' m = (1, ?p')" by (rule big)
  qed
  then show ?thesis
    unfolding Let_def eq fst_conv snd_conv .
qed

text \<open>
  Witness for C2: one dirty block and the demo's budget of 10000 give "complete" with
  that block sent, and so does the repeated call; a freshly cleared screen and budget 1
  give "more pending" after block 0.
\<close>

theorem selective_write_budgeted_witness:
  "TftFullScreenSelectiveWrite one_dirty_screen 10000 = (1, write_blocks one_dirty_screen [31])
 \<and> spi_tx (write_blocks one_dirty_screen [31]) = block_out one_dirty_screen 31
 \<and> dirty_blocks (write_blocks one_dirty_screen [31]) = []
 \<and> TftFullScreenSelectiveWrite (write_blocks one_dirty_screen [31]) 10000
      = (1, write_blocks one_dirty_screen [31])
 \<and> TftFullScreenSelectiveWrite cleared_screen 1 = (0, write_blocks cleared_screen [0])
 \<and> dirty_blocks (write_blocks cleared_screen [0]) = [1..<TEXT_CHARCOUNT]"
proof -
  have s: "(1::int) \<le> sint (10000 :: 32 word)" "(1::int) \<le> sint (1 :: 32 word)" by simp_all
  have tx: "spi_tx one_dirty_screen = []" by (simp add: one_dirty_screen_def blank_screen_def)
  have "0 < TEXT_CHARCOUNT" by (simp add: dims)
  then have "[0..<TEXT_CHARCOUNT] = 0 # [1..<TEXT_CHARCOUNT]" by (simp add: upt_conv_Cons)
  then have tk: "take (nat (sint (1 :: 32 word))) [0..<TEXT_CHARCOUNT] = [0]"
                "drop (nat (sint (1 :: 32 word))) [0..<TEXT_CHARCOUNT] = [1..<TEXT_CHARCOUNT]"
    by simp_all
  have tk1: "take (nat (sint (10000 :: 32 word))) [31::nat] = [31]"
            "drop (nat (sint (10000 :: 32 word))) [31::nat] = []" by simp_all
  have ge: "int TEXT_CHARCOUNT \<le> sint (10000 :: 32 word)" by (simp add: dims)
  have l1: "\<not> nat (sint (10000 :: 32 word)) \<le> length [31::nat]" by simp
  have l2: "nat (sint (1 :: 32 word)) \<le> length [0..<TEXT_CHARCOUNT]" by (simp add: dims)
  note a = selective_write_budgeted [OF demo_screens_wf(1) s(1), of 10000,
             unfolded Let_def one_dirty_screen_dirty tk1 tx append_Nil]
  note b = selective_write_budgeted [OF demo_screens_wf(2) s(2), of 1,
             unfolded Let_def cleared_screen_dirty tk]
  from a have a1: "snd (TftFullScreenSelectiveWrite one_dirty_screen 10000) = write_blocks one_dirty_screen [31]"
    by (elim conjE)
  from a l1 have a2: "fst (TftFullScreenSelectiveWrite one_dirty_screen 10000) = 1"
    by (elim conjE) simp
  from a have a3: "spi_tx (write_blocks one_dirty_screen [31]) = block_out one_dirty_screen 31"
    unfolding a1 by (elim conjE) simp
  from a have a4: "dirty_blocks (write_blocks one_dirty_screen [31]) = []"
    unfolding a1 by (elim conjE)
  from a ge have a5: "TftFullScreenSelectiveWrite (write_blocks one_dirty_screen [31]) 10000
      = (1, write_blocks one_dirty_screen [31])"
    unfolding a1 by (elim conjE) simp
  from b have b1: "snd (TftFullScreenSelectiveWrite cleared_screen 1) = write_blocks cleared_screen [0]"
    by (elim conjE)
  from b l2 have b2: "fst (TftFullScreenSelectiveWrite cleared_screen 1) = 0"
    by (elim conjE) simp
  from b have b3: "dirty_blocks (write_blocks cleared_screen [0]) = [1..<TEXT_CHARCOUNT]"
    unfolding b1 by (elim conjE)
  show ?thesis
    using a1 a2 a3 a4 a5 b1 b2 b3 by (simp add: prod_eq_iff)
qed

text \<open>
  Claim C10: with \<open>nblock_max \<le> 0\<close> (as a signed 32-bit value, the decrement
  wrapping) the budget never stops the scan: every dirty block is written, in order, its
  dirty flag cleared with ink and paper kept, and the call returns 1.
\<close>

theorem selective_write_unlimited:
  assumes "screen_wf pscr" and "sint nblock_max \<le> 0"
  shows "TftFullScreenSelectiveWrite pscr nblock_max = (1, write_blocks pscr (dirty_blocks pscr))
       \<and> spi_tx (write_blocks pscr (dirty_blocks pscr))
           = spi_tx pscr @ concat (map (block_out pscr) (dirty_blocks pscr))
       \<and> dirty_blocks (write_blocks pscr (dirty_blocks pscr)) = []
       \<and> (\<forall>k < TEXT_CHARCOUNT.
             \<not> attr_dirty (mpColorBuffer (write_blocks pscr (dirty_blocks pscr)) ! k)
           \<and> attr_ink (mpColorBuffer (write_blocks pscr (dirty_blocks pscr)) ! k)
               = attr_ink (mpColorBuffer pscr ! k)
           \<and> attr_paper (mpColorBuffer (write_blocks pscr (dirty_blocks pscr)) ! k)
               = attr_paper (mpColorBuffer pscr ! k))
       \<and> mpPixBuffer (write_blocks pscr (dirty_blocks pscr)) = mpPixBuffer pscr"
proof -
  let ?ds = "dirty_blocks pscr"
  have len: "length (mpColorBuffer pscr) = TEXT_CHARCOUNT"
    using assms(1) by (simp add: screen_wf_def)
  have "length ?ds < budget nblock_max"
    using budget_nonpositive [OF assms(2)] dirty_blocks_length [of pscr] by linarith
  then have eq: "TftFullScreenSelectiveWrite pscr nblock_max = (1, write_blocks pscr ?ds)"
    by (simp add: TftFullScreenSelectiveWrite_eq)
  have none: "dirty_blocks (write_blocks pscr ?ds) = []"
    using dirty_blocks_after [OF len, of "length ?ds"] by simp
  have attr: "\<not> attr_dirty (mpColorBuffer (write_blocks pscr ?ds) ! k)
           \<and> attr_ink (mpColorBuffer (write_blocks pscr ?ds) ! k) = attr_ink (mpColorBuffer pscr ! k)
           \<and> attr_paper (mpColorBuffer (write_blocks pscr ?ds) ! k) = attr_paper (mpColorBuffer pscr ! k)"
    if "k < TEXT_CHARCOUNT" for k
  proof (cases "k \<in> set ?ds")
    case True
    then show ?thesis using that len by (simp add: write_blocks_attr)
  next
    case False
    with that have "\<not> attr_dirty (mpColorBuffer pscr ! k)" by (simp add: dirty_blocks_def)
    then show ?thesis using that len False by (simp add: write_blocks_attr)
  qed
  show ?thesis
    using eq none attr by (simp add: write_blocks_out write_blocks_fields)
qed

text \<open>Witness for C10: budgets 0 and -5 on the screen with one dirty block.\<close>

theorem selective_write_unlimited_witness:
  "TftFullScreenSelectiveWrite one_dirty_screen 0 = (1, write_blocks one_dirty_screen [31])
 \<and> TftFullScreenSelectiveWrite one_dirty_screen (- 5) = (1, write_blocks one_dirty_screen [31])
 \<and> spi_tx (write_blocks one_dirty_screen [31]) = block_out one_dirty_screen 31
 \<and> dirty_blocks (write_blocks one_dirty_screen [31]) = []"
proof -
  have s: "sint (0 :: 32 word) \<le> 0" "sint (- 5 :: 32 word) \<le> 0" by simp_all
  have tx: "spi_tx one_dirty_screen = []" by (simp add: one_dirty_screen_def blank_screen_def)
  show ?thesis
    using selective_write_unlimited [OF demo_screens_wf(1) s(1)]
          selective_write_unlimited [OF demo_screens_wf(1) s(2)]
    by (simp add: one_dirty_screen_dirty tx)
qed

section \<open>Properties of the drawing operations\<close>

subsection \<open>Lists as memory\<close>


lemma memmove_list_length:
  "dst + n \<le> length mem \<Longrightarrow> src + n \<le> length mem \<Longrightarrow>
   length (memmove_list mem dst src n) = length mem"
  by (simp add: memmove_list_def)

lemma memmove_list_nth:
  assumes "dst + n \<le> length mem" "src + n \<le> length mem" "k < length mem"
  shows "memmove_list mem dst src n ! k
       = (if dst \<le> k \<and> k < dst + n then mem ! (src + (k - dst)) else mem ! k)"
proof -
  consider "k < dst" | "dst \<le> k" "k < dst + n" | "dst + n \<le> k" by linarith
  then show ?thesis
  proof cases
    case 1
    then show ?thesis using assms by (simp add: memmove_list_def nth_append)
  next
    case 2
    then have "k - dst < n" by linarith
    then show ?thesis using 2 assms by (simp add: memmove_list_def nth_append)
  next
    case 3
    then have "k - dst - n + (dst + n) = k" "\<not> k - dst < n" "\<not> k < dst" by simp_all
    then show ?thesis using 3 assms by (simp add: memmove_list_def nth_append)
  qed
qed

lemma memset_list_length:
  "dst + n \<le> length mem \<Longrightarrow> length (memset_list mem dst v n) = length mem"
  by (simp add: memset_list_def)

lemma memset_list_nth:
  assumes "dst + n \<le> length mem" "k < length mem"
  shows "memset_list mem dst v n ! k = (if dst \<le> k \<and> k < dst + n then v else mem ! k)"
proof -
  consider "k < dst" | "dst \<le> k" "k < dst + n" | "dst + n \<le> k" by linarith
  then show ?thesis
  proof cases
    case 1
    then show ?thesis using assms by (simp add: memset_list_def nth_append)
  next
    case 2
    then have "k - dst < n" by linarith
    then show ?thesis using 2 assms by (simp add: memset_list_def nth_append)
  next
    case 3
    then have "k - dst - n + (dst + n) = k" "\<not> k - dst < n" "\<not> k < dst" by simp_all
    then show ?thesis using 3 assms by (simp add: memset_list_def nth_append)
  qed
qed

lemma fold_mark_length:
  "length (fold (\<lambda>j cb. cb[j := cb ! j OR m]) js cb) = length cb"
  by (induction js arbitrary: cb) simp_all

lemma fold_mark_nth:
  "fold (\<lambda>j cb. cb[j := cb ! j OR m]) [lo..<hi] cb ! k
     = (if lo \<le> k \<and> k < hi \<and> k < length cb then cb ! k OR m else cb ! k)"
proof (induction hi)
  case 0
  show ?case by simp
next
  case (Suc hi)
  show ?case
  proof (cases "lo \<le> hi")
    case False
    then show ?thesis by auto
  next
    case True
    let ?cb = "fold (\<lambda>j cb. cb[j := cb ! j OR m]) [lo..<hi] cb"
    have len: "length ?cb = length cb" by (rule fold_mark_length)
    have "fold (\<lambda>j cb. cb[j := cb ! j OR m]) [lo..<Suc hi] cb = ?cb[hi := ?cb ! hi OR m]"
      using True by simp
    then show ?thesis
      using Suc.IH True len by (auto simp: nth_list_update_any)
  qed
qed

lemma GET_DATA_BIT_iff: "GET_DATA_BIT p n \<longleftrightarrow> bit (p ! (n div 32)) (31 - n mod 32)"
  by (simp add: GET_DATA_BIT_def bit_and_iff bit_drop_bit_eq)

subsection \<open>The scroll, word by word\<close>

lemma scroll_eval:
  assumes "t < b" "b < TEXT_HEIGHT" "screen_wf pscr"
  shows "TftScrollVerticalZone pscr (int t) (int b)
       = Inr (pscr\<lparr>mpPixBuffer := scroll_pix (mpPixBuffer pscr) t b,
                    mpColorBuffer := scroll_attr (mpColorBuffer pscr) t b\<rparr>)"
proof -
  have g: "int t \<le> int b" "\<not> (int t < 0 \<or> int b - int t - 1 < 0)"
    using assms by simp_all
  have f: "nat (int b - int t) = b - t" "nat (int t) = t" "nat (int b) = b" by simp_all
  have w: "push_bit 3 (b - t - 1) * PIX_BYTE_STRIDE div 4 = (b - t - 1) * 60"
          "t * TEXT_WIDTH * 8 div 4 = t * 60"
          "PIX_BYTE_STRIDE * 8 div 4 = 60" "8 * PIX_BYTE_STRIDE div 4 = 60"
          "(b - t) * TEXT_WIDTH = (b - t) * 30" "t * TEXT_WIDTH = t * 30" "b * TEXT_WIDTH = b * 30"
          "t * 30 * 8 div 4 = t * 60" "t * 30 + TEXT_WIDTH = t * 30 + 30"
    by (simp_all add: push_bit_eq_mult dims)
  have e: "t * 60 + (b - t - 1) * 60 = (b - 1) * 60"
    using assms(1) by arith
  have len: "length (mpPixBuffer pscr) = 2400" "length (mpColorBuffer pscr) = 1200"
    using assms(3) by (simp_all add: screen_wf_def dims)
  have b40: "b < 40" using assms(2) by (simp add: dims)
  have inside: "\<not> (2400 < t * 60 + 60 + (b - t - 1) * 60
                  \<or> 2400 < (b - 1) * 60 + 60
                  \<or> 1200 < t * 30 + 30 + (b - t) * 30)"
    using assms(1) b40 by arith
  show ?thesis
    unfolding TftScrollVerticalZone_def Let_def f w e len scroll_pix_def scroll_attr_def
    using g inside by (simp only: if_True if_False not_not simp_thms)
qed

lemma scroll_last_row:
  assumes "t < TEXT_HEIGHT" "screen_wf pscr"
  shows "TftScrollVerticalZone pscr (int t) (int TEXT_HEIGHT) = Inl OutOfBounds"
proof -
  have t40: "t < 40" using assms(1) by (simp add: dims)
  have g: "int t \<le> int TEXT_HEIGHT" "\<not> (int t < 0 \<or> int TEXT_HEIGHT - int t - 1 < 0)"
    using assms(1) by simp_all
  have f: "nat (int TEXT_HEIGHT - int t) = 40 - t" "nat (int t) = t"
    by (simp_all add: dims)
  have w: "(40 - t) * TEXT_WIDTH = (40 - t) * 30" "t * TEXT_WIDTH = t * 30"
          "t * 30 + TEXT_WIDTH = t * 30 + 30"
    by (simp_all add: dims)
  have len: "length (mpColorBuffer pscr) = 1200"
    using assms(2) by (simp add: screen_wf_def dims)
  have outside: "1200 < t * 30 + 30 + (40 - t) * 30"
    using t40 by arith
  show ?thesis
    unfolding TftScrollVerticalZone_def Let_def f w len
    using g outside by (simp only: if_True if_False not_not simp_thms)
qed

lemma scroll_pix_nth:
  assumes "length pix = 2400" "t < b" "b \<le> 40" "k < 2400"
  shows "length (scroll_pix pix t b) = 2400"
    and "scroll_pix pix t b ! k
       = (if (b - 1) * 60 \<le> k \<and> k < b * 60 then 0
          else if t * 60 \<le> k \<and> k < (b - 1) * 60 then pix ! (k + 60) else pix ! k)"
proof -
  let ?m = "memmove_list pix (t * 60) (t * 60 + 60) ((b - t - 1) * 60)"
  have e: "t * 60 + (b - t - 1) * 60 = (b - 1) * 60"
    using assms(2) by arith
  have e2: "(b - 1) * 60 + 60 = b * 60"
    using assms(2) by arith
  have b60: "b * 60 \<le> 2400" using assms(3) by simp
  have r1: "t * 60 + (b - t - 1) * 60 \<le> length pix" using e e2 b60 assms(1) by linarith
  have r2: "t * 60 + 60 + (b - t - 1) * 60 \<le> length pix" using e e2 b60 assms(1) by linarith
  have lm: "length ?m = 2400" using memmove_list_length [OF r1 r2] assms(1) by simp
  have r3: "(b - 1) * 60 + 60 \<le> length ?m" using e2 b60 lm by linarith
  show "length (scroll_pix pix t b) = 2400"
    unfolding scroll_pix_def using memset_list_length [OF r3] lm by simp
  have km: "k < length ?m" "k < length pix" using lm assms by simp_all
  have mv: "?m ! k = (if t * 60 \<le> k \<and> k < (b - 1) * 60 then pix ! (k + 60) else pix ! k)"
    using memmove_list_nth [OF r1 r2 km(2)] unfolding e
    by (auto simp: add.commute add.left_commute)
  show "scroll_pix pix t b ! k
       = (if (b - 1) * 60 \<le> k \<and> k < b * 60 then 0
          else if t * 60 \<le> k \<and> k < (b - 1) * 60 then pix ! (k + 60) else pix ! k)"
    unfolding scroll_pix_def memset_list_nth [OF r3 km(1)] e2 mv by simp
qed

lemma scroll_attr_nth:
  assumes "length cb = 1200" "t < b" "b < 40" "k < 1200"
  shows "length (scroll_attr cb t b) = 1200"
    and "scroll_attr cb t b ! k
       = (if t * 30 \<le> k \<and> k < b * 30 then cb ! (k + 30) OR push_bit 6 1 else cb ! k)"
proof -
  let ?m = "memmove_list cb (t * 30) (t * 30 + 30) ((b - t) * 30)"
  have e: "t * 30 + (b - t) * 30 = b * 30"
    using assms(2) by arith
  have b30: "b * 30 + 30 \<le> 1200" using assms(3) by simp
  have r1: "t * 30 + (b - t) * 30 \<le> length cb" using e b30 assms(1) by linarith
  have r2: "t * 30 + 30 + (b - t) * 30 \<le> length cb" using e b30 assms(1) by linarith
  have lm: "length ?m = 1200" using memmove_list_length [OF r1 r2] assms(1) by simp
  show "length (scroll_attr cb t b) = 1200"
    unfolding scroll_attr_def fold_mark_length lm ..
  have kk: "k < length cb" using assms(1,4) by simp
  have mv: "?m ! k = (if t * 30 \<le> k \<and> k < b * 30 then cb ! (k + 30) else cb ! k)"
    using memmove_list_nth [OF r1 r2 kk] unfolding e
    by (auto simp: add.commute add.left_commute)
  show "scroll_attr cb t b ! k
       = (if t * 30 \<le> k \<and> k < b * 30 then cb ! (k + 30) OR push_bit 6 1 else cb ! k)"
    unfolding scroll_attr_def fold_mark_nth lm mv using assms(4) by simp
qed



lemma band_word:
  fixes x y m :: nat
  assumes "x < 240"
  shows "(m * 60 \<le> (y * 240 + x) div 32) \<longleftrightarrow> (8 * m \<le> y)"
    and "((y * 240 + x) div 32 < m * 60) \<longleftrightarrow> (y < 8 * m)"
    and "((y + 8) * 240 + x) div 32 = (y * 240 + x) div 32 + 60"
    and "((y + 8) * 240 + x) mod 32 = (y * 240 + x) mod 32"
proof -
  have "(m * 60 \<le> (y * 240 + x) div 32) \<longleftrightarrow> (m * 60 * 32 \<le> y * 240 + x)"
    by (simp add: less_eq_div_iff_mult_less_eq)
  also have "\<dots> \<longleftrightarrow> (8 * m \<le> y)" using assms by linarith
  finally show "(m * 60 \<le> (y * 240 + x) div 32) \<longleftrightarrow> (8 * m \<le> y)" .
  have "((y * 240 + x) div 32 < m * 60) \<longleftrightarrow> (y * 240 + x < m * 60 * 32)"
    by (simp add: div_less_iff_less_mult)
  also have "\<dots> \<longleftrightarrow> (y < 8 * m)" using assms by linarith
  finally show "((y * 240 + x) div 32 < m * 60) \<longleftrightarrow> (y < 8 * m)" .
  have s: "(y + 8) * 240 + x = (y * 240 + x) + 60 * 32" by simp
  show "((y + 8) * 240 + x) div 32 = (y * 240 + x) div 32 + 60"
    unfolding s using div_mult_self1 [of 32 "y * 240 + x" 60] by (simp add: add.commute)
  show "((y + 8) * 240 + x) mod 32 = (y * 240 + x) mod 32"
    unfolding s using mod_mult_self1 [of "y * 240 + x" 60 32] by (simp add: add.commute)
qed

lemma band_attr:
  fixes c r m :: nat
  assumes "c < 30"
  shows "(m * 30 \<le> r * 30 + c) \<longleftrightarrow> (m \<le> r)"
    and "(r * 30 + c < m * 30) \<longleftrightarrow> (r < m)"
    and "(r + 1) * 30 + c = r * 30 + c + 30"
  using assms by (linarith, linarith, simp)



lemma scroll_zone_pixels:
  assumes "length pix = 2400" "t < b" "b \<le> 40" "x < 240" "y < 320"
  shows "GET_DATA_BIT (scroll_pix pix t b) (y * 240 + x) =
         (if 8 * t \<le> y \<and> y < 8 * (b - 1) then GET_DATA_BIT pix ((y + 8) * 240 + x)
          else if 8 * (b - 1) \<le> y \<and> y < 8 * b then False
          else GET_DATA_BIT pix (y * 240 + x))"
proof -
  let ?k = "(y * 240 + x) div 32"
  have "y * 240 + x < 320 * 240" using assms(4,5) by linarith
  then have k: "?k < 2400" by (simp add: div_less_iff_less_mult)
  note nth = scroll_pix_nth(2) [OF assms(1,2,3) k]
  show ?thesis
    unfolding GET_DATA_BIT_iff nth band_word [OF assms(4)]
    by simp
qed

lemma scroll_zone_attrs:
  assumes "length cb = 1200" "t < b" "b < 40" "c < 30" "r < 40"
  shows "(t \<le> r \<and> r < b \<longrightarrow>
            scroll_attr cb t b ! (r * 30 + c) = cb ! ((r + 1) * 30 + c) OR push_bit 6 1)
       \<and> (t \<le> r \<and> r < b \<longrightarrow> attr_dirty (scroll_attr cb t b ! (r * 30 + c)))
       \<and> (r < t \<or> b \<le> r \<longrightarrow> scroll_attr cb t b ! (r * 30 + c) = cb ! (r * 30 + c))"
proof -
  have k: "r * 30 + c < 1200" using assms(4,5) by linarith
  note nth = scroll_attr_nth(2) [OF assms(1,2,3) k]
  have d: "attr_dirty (a OR push_bit 6 1)" for a :: "8 word"
    by (simp add: attr_dirty_iff bit_or_iff bit_push_bit_iff)
  show ?thesis
    unfolding nth band_attr [OF assms(4)]
    using d by auto
qed

subsection \<open>Clearing a block, lines, scrolling\<close>


lemma list_update_replicate_same: "(replicate n v)[i := v] = replicate n v"
  by (rule nth_equalityI) (simp_all add: nth_list_update_any)

lemma TftClearRect8_pixel8:
  "TftClearRect8 pixel8_screen 0 0
     = Inr (blank_screen\<lparr>mpColorBuffer := (mpColorBuffer blank_screen)[0 := 0x42]\<rparr>)"
  by (simp add: TftClearRect8_def pixel8_screen_def blank_screen_def store_pix_word_def
        mark_changed_def SET_DATA_BIT_def dims list_update_replicate_same
        upt_rec [of 0] upt_rec [of "Suc _"] drop_bit_eq_div push_bit_eq_mult)

text \<open>
  Claim C1 at a failing input: \<open>TftClearRect8(pscr, 0, 0)\<close> on a screen whose only
  set pixel is (8, 0), every block clean. The routine zeroes the whole 32-bit word that
  holds pixels 0 to 31 of pixel row 0, so pixel (8, 0), which lies in block 1, goes from
  set to clear; only block 0 is marked dirty, block 1 stays clean.
\<close>

theorem TftClearRect8_neighbour_not_marked:
  "TftClearRect8 pixel8_screen 0 0
     = Inr (blank_screen\<lparr>mpColorBuffer := (mpColorBuffer blank_screen)[0 := 0x42]\<rparr>)
   \<and> GET_DATA_BIT (mpPixBuffer pixel8_screen) 8
   \<and> \<not> GET_DATA_BIT (mpPixBuffer blank_screen) 8
   \<and> \<not> attr_dirty (mpColorBuffer pixel8_screen ! 1)
   \<and> \<not> attr_dirty ((mpColorBuffer blank_screen)[0 := 0x42] ! 1)"
  by (simp add: TftClearRect8_pixel8)
     (simp add: pixel8_screen_def blank_screen_def SET_DATA_BIT_def GET_DATA_BIT_def dims
        attr_dirty_iff)



lemma TftPutPixel_clipped:
  "x < 0 \<or> y < 0 \<or> int PIX_WIDTH \<le> x \<or> int PIX_HEIGHT \<le> y \<Longrightarrow> TftPutPixel pscr x y paper ink = Inr pscr"
  by (auto simp: TftPutPixel_def)

lemma TftPutLine_rejected:
  "x0 < 0 \<or> y0 < 0 \<or> x1 < 0 \<or> y1 < 0
   \<or> int PIX_WIDTH < x0 \<or> int PIX_HEIGHT < y0 \<or> int PIX_WIDTH < x1 \<or> int PIX_HEIGHT < y1
   \<Longrightarrow> TftPutLine pscr x0 y0 x1 y1 = Inr pscr"
  by (auto simp: TftPutLine_def)

lemma plot_point_blank_240_0:
  "plot_point blank_screen 240 0
     = Inr (blank_screen\<lparr>mpPixBuffer := (mpPixBuffer blank_screen)[7 := 0x8000],
                          mpColorBuffer := (mpColorBuffer blank_screen)[30 := 0x42]\<rparr>)"
  by (simp add: plot_point_def set_pixel_bit_def mark_changed_def SET_DATA_BIT_def
        blank_screen_def dims drop_bit_eq_div)

text \<open>
  Claim C3 at a failing input: \<open>TftPutLine(pscr, 240, 0, 240, 0)\<close> on the blank
  screen. The x coordinate 240 is outside \<open>[0, 240)\<close>, yet the call is not a no-op:
  it sets bit 240 of the plane, which is pixel (0, 1), and the dirty flag of block 30,
  which is block (0, 1).
\<close>

theorem TftPutLine_draws_at_x_240:
  "TftPutLine blank_screen 240 0 240 0
     = Inr (blank_screen\<lparr>mpPixBuffer := (mpPixBuffer blank_screen)[7 := 0x8000],
                          mpColorBuffer := (mpColorBuffer blank_screen)[30 := 0x42]\<rparr>)
 \<and> \<not> (240 :: int) < int PIX_WIDTH
 \<and> GET_DATA_BIT ((mpPixBuffer blank_screen)[7 := 0x8000]) (1 * PIX_WIDTH + 0)
 \<and> \<not> GET_DATA_BIT (mpPixBuffer blank_screen) (1 * PIX_WIDTH + 0)
 \<and> attr_dirty ((mpColorBuffer blank_screen)[30 := 0x42] ! (1 * TEXT_WIDTH + 0))
 \<and> \<not> attr_dirty (mpColorBuffer blank_screen ! (1 * TEXT_WIDTH + 0))"
proof -
  have loop: "put_line_loop 1000 pscr x y x y sx sy dx dy err = plot_point pscr x y"
    for pscr x y sx sy dx dy err
    using put_line_loop.simps(2) [of 999 pscr x y x y sx sy dx dy err]
    by (simp split: sum.split)
  have run: "TftPutLine blank_screen 240 0 240 0
     = Inr (blank_screen\<lparr>mpPixBuffer := (mpPixBuffer blank_screen)[7 := 0x8000],
                          mpColorBuffer := (mpColorBuffer blank_screen)[30 := 0x42]\<rparr>)"
    unfolding TftPutLine_def
    by (simp add: loop plot_point_blank_240_0 PIX_WIDTH_def PIX_HEIGHT_def c_div2_def)
  show ?thesis
    unfolding run
    by (simp add: blank_screen_def GET_DATA_BIT_def dims attr_dirty_iff)
qed



lemma scroll_zone_inside:
  assumes "screen_wf pscr" and "0 \<le> top_y" and "top_y < bot_y" and "bot_y < int TEXT_HEIGHT"
  shows "\<exists>p'. TftScrollVerticalZone pscr top_y bot_y = Inr p' \<and> screen_wf p'
     \<and> (\<forall>x<PIX_WIDTH. \<forall>y<PIX_HEIGHT.
           GET_DATA_BIT (mpPixBuffer p') (y * PIX_WIDTH + x) =
             (if 8 * top_y \<le> int y \<and> int y < 8 * (bot_y - 1)
                then GET_DATA_BIT (mpPixBuffer pscr) ((y + 8) * PIX_WIDTH + x)
              else if 8 * (bot_y - 1) \<le> int y \<and> int y < 8 * bot_y then False
              else GET_DATA_BIT (mpPixBuffer pscr) (y * PIX_WIDTH + x)))
     \<and> (\<forall>c<TEXT_WIDTH. \<forall>r<TEXT_HEIGHT.
           (top_y \<le> int r \<and> int r < bot_y \<longrightarrow>
              mpColorBuffer p' ! (r * TEXT_WIDTH + c)
                = mpColorBuffer pscr ! ((r + 1) * TEXT_WIDTH + c) OR push_bit 6 1)
         \<and> (top_y \<le> int r \<and> int r < bot_y \<longrightarrow>
              attr_dirty (mpColorBuffer p' ! (r * TEXT_WIDTH + c)))
         \<and> (int r < top_y \<or> bot_y \<le> int r \<longrightarrow>
              mpColorBuffer p' ! (r * TEXT_WIDTH + c) = mpColorBuffer pscr ! (r * TEXT_WIDTH + c)))
     \<and> mCursorX p' = mCursorX pscr \<and> mCursorY p' = mCursorY pscr
     \<and> mCanvasPaper p' = mCanvasPaper pscr \<and> mCanvasInk p' = mCanvasInk pscr
     \<and> spi_tx p' = spi_tx pscr"
proof -
  obtain t b where tb: "top_y = int t" "bot_y = int b"
    using assms(2,3) by (metis nat_0_le less_imp_le order_trans)
  have lt: "t < b" and le: "b < 40" "b < TEXT_HEIGHT" "b \<le> 40"
    using assms(3,4) tb by (simp_all add: dims)
  have len: "length (mpPixBuffer pscr) = 2400" "length (mpColorBuffer pscr) = 1200"
    using assms(1) by (simp_all add: screen_wf_def dims)
  let ?P = "scroll_pix (mpPixBuffer pscr) t b"
  let ?A = "scroll_attr (mpColorBuffer pscr) t b"
  let ?p' = "pscr\<lparr>mpPixBuffer := ?P, mpColorBuffer := ?A\<rparr>"
  have run: "TftScrollVerticalZone pscr top_y bot_y = Inr ?p'"
    unfolding tb by (rule scroll_eval [OF lt le(2) assms(1)])
  have wf: "screen_wf ?p'"
    using scroll_pix_nth(1) [OF len(1) lt le(3), of 0] scroll_attr_nth(1) [OF len(2) lt le(1), of 0]
    by (simp add: screen_wf_def dims)
  have cmp: "(8 * int t \<le> int y) = (8 * t \<le> y)" "(int y < 8 * (int b - 1)) = (y < 8 * (b - 1))"
            "(8 * (int b - 1) \<le> int y) = (8 * (b - 1) \<le> y)" "(int y < 8 * int b) = (y < 8 * b)"
            "(int t \<le> int y) = (t \<le> y)"
            "(int y < int b) = (y < b)" "(int y < int t) = (y < t)" "(int b \<le> int y) = (b \<le> y)"
    for y
    using lt by presburger+
  have pix: "\<forall>x<PIX_WIDTH. \<forall>y<PIX_HEIGHT.
           GET_DATA_BIT ?P (y * PIX_WIDTH + x) =
             (if 8 * top_y \<le> int y \<and> int y < 8 * (bot_y - 1)
                then GET_DATA_BIT (mpPixBuffer pscr) ((y + 8) * PIX_WIDTH + x)
              else if 8 * (bot_y - 1) \<le> int y \<and> int y < 8 * bot_y then False
              else GET_DATA_BIT (mpPixBuffer pscr) (y * PIX_WIDTH + x))"
    unfolding tb cmp PIX_WIDTH_def PIX_HEIGHT_def
    using scroll_zone_pixels [OF len(1) lt le(3)] by blast
  have attr: "\<forall>c<TEXT_WIDTH. \<forall>r<TEXT_HEIGHT.
           (top_y \<le> int r \<and> int r < bot_y \<longrightarrow>
              ?A ! (r * TEXT_WIDTH + c)
                = mpColorBuffer pscr ! ((r + 1) * TEXT_WIDTH + c) OR push_bit 6 1)
         \<and> (top_y \<le> int r \<and> int r < bot_y \<longrightarrow> attr_dirty (?A ! (r * TEXT_WIDTH + c)))
         \<and> (int r < top_y \<or> bot_y \<le> int r \<longrightarrow>
              ?A ! (r * TEXT_WIDTH + c) = mpColorBuffer pscr ! (r * TEXT_WIDTH + c))"
  proof (intro allI impI)
    fix c r assume "c < TEXT_WIDTH" "r < TEXT_HEIGHT"
    then have cr: "c < 30" "r < 40" by (simp_all add: dims)
    have tw: "TEXT_WIDTH = 30" by (simp add: dims)
    show "(top_y \<le> int r \<and> int r < bot_y \<longrightarrow>
              ?A ! (r * TEXT_WIDTH + c)
                = mpColorBuffer pscr ! ((r + 1) * TEXT_WIDTH + c) OR push_bit 6 1)
         \<and> (top_y \<le> int r \<and> int r < bot_y \<longrightarrow> attr_dirty (?A ! (r * TEXT_WIDTH + c)))
         \<and> (int r < top_y \<or> bot_y \<le> int r \<longrightarrow>
              ?A ! (r * TEXT_WIDTH + c) = mpColorBuffer pscr ! (r * TEXT_WIDTH + c))"
      unfolding tb cmp tw
      by (rule scroll_zone_attrs [OF len(2) lt le(1) cr])
  qed
  have sel: "mpColorBuffer ?p' = ?A" by simp
  show ?thesis
  proof (intro exI [of _ ?p'] conjI)
    show "TftScrollVerticalZone pscr top_y bot_y = Inr ?p'" by (rule run)
    show "screen_wf ?p'" by (rule wf)
    show "\<forall>x<PIX_WIDTH. \<forall>y<PIX_HEIGHT.
           GET_DATA_BIT (mpPixBuffer ?p') (y * PIX_WIDTH + x) =
             (if 8 * top_y \<le> int y \<and> int y < 8 * (bot_y - 1)
                then GET_DATA_BIT (mpPixBuffer pscr) ((y + 8) * PIX_WIDTH + x)
              else if 8 * (bot_y - 1) \<le> int y \<and> int y < 8 * bot_y then False
              else GET_DATA_BIT (mpPixBuffer pscr) (y * PIX_WIDTH + x))"
      using pix by simp
    show "\<forall>c<TEXT_WIDTH. \<forall>r<TEXT_HEIGHT.
           (top_y \<le> int r \<and> int r < bot_y \<longrightarrow>
              mpColorBuffer ?p' ! (r * TEXT_WIDTH + c)
                = mpColorBuffer pscr ! ((r + 1) * TEXT_WIDTH + c) OR push_bit 6 1)
         \<and> (top_y \<le> int r \<and> int r < bot_y \<longrightarrow>
              attr_dirty (mpColorBuffer ?p' ! (r * TEXT_WIDTH + c)))
         \<and> (int r < top_y \<or> bot_y \<le> int r \<longrightarrow>
              mpColorBuffer ?p' ! (r * TEXT_WIDTH + c) = mpColorBuffer pscr ! (r * TEXT_WIDTH + c))"
      unfolding sel by (rule attr)
  qed simp_all
qed

lemma banner_screen_wf: "screen_wf banner_screen"
  by (simp add: banner_screen_def cleared_screen_def blank_screen_def screen_wf_def
        SET_DATA_BIT_def)

lemma banner_screen_attr:
  "mpColorBuffer banner_screen ! k = (if k = 240 then 0x0E else if k < 1200 then 0x42 else
      mpColorBuffer banner_screen ! k)"
  by (simp add: banner_screen_def cleared_screen_def blank_screen_def dims nth_list_update_any)

lemma banner_screen_pixel:
  "GET_DATA_BIT (mpPixBuffer banner_screen) (64 * PIX_WIDTH + 0)"
  by (simp add: banner_screen_def cleared_screen_def blank_screen_def dims
        SET_DATA_BIT_def GET_DATA_BIT_def)

text \<open>
  Claim C4 at two failing inputs. The attribute move copies \<open>bot_y - top_y\<close> text
  rows where the pixel move copies one less, so it also carries the row below the zone
  into the bottom row of the zone. Scrolling \<open>[0, 8)\<close>, as the demo program does, on a
  screen whose block (0, 8), just below the zone, is yellow on blue with its pixel
  (0, 64) set: block (0, 7), red (2) on black (0) before, comes out yellow (6) on blue
  (1), neither the canvas defaults magenta (3) on black (0) nor what a shift of the zone
  alone can give, while its pixels are clear and block (0, 8) keeps its own pixel. And
  scrolling the whole screen, \<open>[0, TEXT_HEIGHT)\<close>, which the parameter \<open>bot_y\<close> is
  documented to allow, makes that move read the 30 bytes behind the attribute array.
\<close>

theorem TftScrollVerticalZone_moves_row_below_zone:
  "(\<exists>p'. TftScrollVerticalZone banner_screen 0 8 = Inr p'
      \<and> mpColorBuffer p' ! (7 * TEXT_WIDTH + 0) = 0x4E
      \<and> attr_ink (mpColorBuffer p' ! (7 * TEXT_WIDTH + 0)) = 6
      \<and> attr_paper (mpColorBuffer p' ! (7 * TEXT_WIDTH + 0)) = 1
      \<and> \<not> GET_DATA_BIT (mpPixBuffer p') (56 * PIX_WIDTH + 0)
      \<and> GET_DATA_BIT (mpPixBuffer p') (64 * PIX_WIDTH + 0)
      \<and> mpColorBuffer p' ! (8 * TEXT_WIDTH + 0) = 0x0E)
 \<and> mpColorBuffer banner_screen ! (7 * TEXT_WIDTH + 0) = 0x42
 \<and> attr_ink (mpColorBuffer banner_screen ! (7 * TEXT_WIDTH + 0)) = 2
 \<and> attr_paper (mpColorBuffer banner_screen ! (7 * TEXT_WIDTH + 0)) = 0
 \<and> mpColorBuffer banner_screen ! (8 * TEXT_WIDTH + 0) = 0x0E
 \<and> color_index (mCanvasInk banner_screen) = 3
 \<and> color_index (mCanvasPaper banner_screen) = 0
 \<and> int TEXT_HEIGHT = 40
 \<and> TftScrollVerticalZone banner_screen 0 40 = Inl OutOfBounds"
proof -
  have h: "(0::int) \<le> 0" "(0::int) < 8" "(8::int) < int TEXT_HEIGHT" by (simp_all add: dims)
  from scroll_zone_inside [OF banner_screen_wf h]
  obtain p' where run: "TftScrollVerticalZone banner_screen 0 8 = Inr p'"
    and pix: "\<And>x y. x < PIX_WIDTH \<Longrightarrow> y < PIX_HEIGHT \<Longrightarrow>
           GET_DATA_BIT (mpPixBuffer p') (y * PIX_WIDTH + x) =
             (if 8 * 0 \<le> int y \<and> int y < 8 * (8 - 1)
                then GET_DATA_BIT (mpPixBuffer banner_screen) ((y + 8) * PIX_WIDTH + x)
              else if 8 * (8 - 1) \<le> int y \<and> int y < 8 * 8 then False
              else GET_DATA_BIT (mpPixBuffer banner_screen) (y * PIX_WIDTH + x))"
    and attr: "\<And>c r. c < TEXT_WIDTH \<Longrightarrow> r < TEXT_HEIGHT \<Longrightarrow>
           (0 \<le> int r \<and> int r < 8 \<longrightarrow>
              mpColorBuffer p' ! (r * TEXT_WIDTH + c)
                = mpColorBuffer banner_screen ! ((r + 1) * TEXT_WIDTH + c) OR push_bit 6 1)
         \<and> (int r < 0 \<or> 8 \<le> int r \<longrightarrow>
              mpColorBuffer p' ! (r * TEXT_WIDTH + c)
                = mpColorBuffer banner_screen ! (r * TEXT_WIDTH + c))"
    by blast
  have a7: "mpColorBuffer p' ! (7 * TEXT_WIDTH + 0) = 0x4E"
    using attr [of 0 7] by (simp add: dims banner_screen_attr)
  have a8: "mpColorBuffer p' ! (8 * TEXT_WIDTH + 0) = 0x0E"
    using attr [of 0 8] by (simp add: dims banner_screen_attr)
  have p56: "\<not> GET_DATA_BIT (mpPixBuffer p') (56 * PIX_WIDTH + 0)"
    using pix [of 0 56] by (simp add: dims)
  have p64: "GET_DATA_BIT (mpPixBuffer p') (64 * PIX_WIDTH + 0)"
    using pix [of 0 64] banner_screen_pixel by (simp add: dims)
  have before: "mpColorBuffer banner_screen ! (7 * TEXT_WIDTH + 0) = 0x42"
    "mpColorBuffer banner_screen ! (8 * TEXT_WIDTH + 0) = 0x0E"
    by (simp_all add: dims banner_screen_attr)
  have canvas: "color_index (mCanvasInk banner_screen) = 3"
    "color_index (mCanvasPaper banner_screen) = 0"
    by (simp_all add: banner_screen_def cleared_screen_def blank_screen_def)
  have th: "int TEXT_HEIGHT = 40" by (simp add: dims)
  have full: "TftScrollVerticalZone banner_screen 0 40 = Inl OutOfBounds"
    using scroll_last_row [of 0 banner_screen, OF _ banner_screen_wf] by (simp add: dims)
  have first: "\<exists>p'. TftScrollVerticalZone banner_screen 0 8 = Inr p'
      \<and> mpColorBuffer p' ! (7 * TEXT_WIDTH + 0) = 0x4E
      \<and> attr_ink (mpColorBuffer p' ! (7 * TEXT_WIDTH + 0)) = 6
      \<and> attr_paper (mpColorBuffer p' ! (7 * TEXT_WIDTH + 0)) = 1
      \<and> \<not> GET_DATA_BIT (mpPixBuffer p') (56 * PIX_WIDTH + 0)
      \<and> GET_DATA_BIT (mpPixBuffer p') (64 * PIX_WIDTH + 0)
      \<and> mpColorBuffer p' ! (8 * TEXT_WIDTH + 0) = 0x0E"
    using run a7 a8 p56 p64 by (auto simp add: attr_ink_def attr_paper_def)
  show ?thesis
    using first before canvas th full by (simp add: attr_ink_def attr_paper_def)
qed

subsection \<open>Setting a pixel inside the plane\<close>


lemma attr_dirty_or: "attr_dirty (a OR push_bit 6 1)"
  by (simp add: attr_dirty_iff bit_or_iff bit_push_bit_iff)

lemma attr_dirty_or_64: "attr_dirty (a OR 64)"
  using attr_dirty_or [of a] by simp

lemma SET_DATA_BIT_length: "length (SET_DATA_BIT p n) = length p"
  by (simp add: SET_DATA_BIT_def)

lemma GET_after_SET:
  assumes "n div 32 < length p"
  shows "GET_DATA_BIT (SET_DATA_BIT p n) n"
proof -
  have "31 - n mod 32 < 32" by simp
  have b: "bit (drop_bit (n mod 32) (0x80000000 :: 32 word)) (31 - n mod 32)"
  proof -
    have "(0x80000000 :: 32 word) = push_bit 31 1" by simp
    then show ?thesis
      by (simp only: bit_drop_bit_eq bit_push_bit_iff) (simp add: bit_1_iff)
  qed
  show ?thesis
    using assms b by (simp add: GET_DATA_BIT_iff SET_DATA_BIT_def bit_or_iff)
qed

lemma TftPutPixel_marks_block:
  assumes "screen_wf pscr" "0 \<le> x" "x < int PIX_WIDTH" "0 \<le> y" "y < int PIX_HEIGHT"
  shows "\<exists>p'. TftPutPixel pscr x y paper ink = Inr p'
           \<and> GET_DATA_BIT (mpPixBuffer p') (nat y * PIX_WIDTH + nat x)
           \<and> attr_dirty (mpColorBuffer p' ! (nat y div 8 * TEXT_WIDTH + nat x div 8))
           \<and> screen_wf p'"
proof -
  obtain a b where ab: "x = int a" "y = int b" using assms(2,4) by (metis nat_0_le)
  have lt: "a < 240" "b < 320" using assms(3,5) ab by (simp_all add: dims)
  have len: "length (mpPixBuffer pscr) = 2400" "length (mpColorBuffer pscr) = 1200"
    using assms(1) by (simp_all add: screen_wf_def dims)
  have n: "int a + int b * 240 = int (b * 240 + a)" by simp
  have "b * 240 + a < 320 * 240" using lt by linarith
  then have w: "(b * 240 + a) div 32 < 2400" by (simp add: div_less_iff_less_mult)
  have box: "int a div 8 + 30 * (int b div 8) = int (b div 8 * 30 + a div 8)"
    by (simp add: zdiv_int)
  have "b div 8 < 40" "a div 8 < 30" using lt by (simp_all add: div_less_iff_less_mult)
  then have bx: "b div 8 * 30 + a div 8 < 1200" by linarith
  show ?thesis
    unfolding ab
    using lt len w bx GET_after_SET [of "b * 240 + a" "mpPixBuffer pscr"]
    by (simp add: TftPutPixel_def TftPutColorAttr_def set_pixel_bit_def dims n box
          drop_bit_eq_div Let_def screen_wf_def attr_dirty_or_64 SET_DATA_BIT_length
          del: of_nat_add of_nat_mult)
qed


text \<open>
  With \<open>y = PIX_HEIGHT\<close>, which the bounds test of \<open>TftPutLine\<close> also lets through, the
  first store falls behind the end of the pixel plane.
\<close>

lemma TftPutLine_stores_outside_at_y_320:
  "TftPutLine blank_screen 0 320 0 320 = Inl OutOfBounds"
proof -
  have loop: "put_line_loop 1000 pscr x y x y sx sy dx dy err = plot_point pscr x y"
    for pscr x y sx sy dx dy err
    using put_line_loop.simps(2) [of 999 pscr x y x y sx sy dx dy err]
    by (simp split: sum.split)
  have "plot_point blank_screen 0 320 = Inl OutOfBounds"
    by (simp add: plot_point_def set_pixel_bit_def blank_screen_def dims)
  then show ?thesis
    unfolding TftPutLine_def
    by (simp add: loop PIX_WIDTH_def PIX_HEIGHT_def c_div2_def)
qed

section \<open>Properties of the calibration\<close>


lemma accumulate_sums:
  "case fold (accumulate ops ref smp) [0..<n]
          (replicate 3 (f_of_int ops 0), replicate 3 (f_of_int ops 0),
           replicate 3 (f_of_int ops 0), replicate 3 (f_of_int ops 0)) of
     (a, b, c, d) \<Rightarrow>
       length a = 3 \<and> length b = 3 \<and> length c = 3 \<and> length d = 3
     \<and> a ! 2 = plain_sum ops smp 0 n \<and> b ! 2 = plain_sum ops smp 1 n
     \<and> a ! 0 = square_sum ops smp 0 n \<and> b ! 1 = square_sum ops smp 1 n"
proof (induction n)
  case 0
  show ?case by (simp add: plain_sum_def square_sum_def)
next
  case (Suc n)
  obtain a b c d where f: "fold (accumulate ops ref smp) [0..<n]
          (replicate 3 (f_of_int ops 0), replicate 3 (f_of_int ops 0),
           replicate 3 (f_of_int ops 0), replicate 3 (f_of_int ops 0)) = (a, b, c, d)"
    by (metis prod_cases4)
  from Suc.IH have ih: "length a = 3" "length b = 3" "length c = 3" "length d = 3"
     "a ! 2 = plain_sum ops smp 0 n" "b ! 2 = plain_sum ops smp 1 n"
     "a ! 0 = square_sum ops smp 0 n" "b ! 1 = square_sum ops smp 1 n"
    unfolding f by simp_all
  have ps: "plain_sum ops smp off (Suc n)
          = f_add ops (plain_sum ops smp off n) (f_of_int ops (smp (2 * n + off)))" for off
    by (simp add: plain_sum_def)
  have ss: "square_sum ops smp off (Suc n)
          = f_add ops (square_sum ops smp off n)
              (f_mul ops (f_of_int ops (smp (2 * n + off))) (f_of_int ops (smp (2 * n + off))))" for off
    by (simp add: square_sum_def)
  have step: "fold (accumulate ops ref smp) [0..<Suc n]
          (replicate 3 (f_of_int ops 0), replicate 3 (f_of_int ops 0),
           replicate 3 (f_of_int ops 0), replicate 3 (f_of_int ops 0))
        = accumulate ops ref smp n (a, b, c, d)"
    using f by simp
  show ?case
    unfolding step using ih
    by (simp add: accumulate_def Let_def ps ss push_bit_eq_mult mult.commute)
qed

lemma accumulated_sums:
  "case accumulated ops ref smp npoints of
     (a, b, c, d) \<Rightarrow>
       a ! 2 = plain_sum ops smp 0 (nat npoints) \<and> b ! 2 = plain_sum ops smp 1 (nat npoints)
     \<and> a ! 0 = square_sum ops smp 0 (nat npoints) \<and> b ! 1 = square_sum ops smp 1 (nat npoints)"
  using accumulate_sums [where ops = ops and ref = ref and smp = smp and n = "nat npoints"]
  by (simp add: accumulated_def Let_def split_beta)

lemma solve_mat_code:
  "fst (solve_mat ops abcd npoints m) = (if f_small ops (calib_k ops abcd) then - 3 else npoints)"
  "f_small ops (calib_k ops abcd) \<Longrightarrow> snd (solve_mat ops abcd npoints m) = m"
  by (simp_all add: solve_mat_def Let_def split_beta)

lemma CalculateCalibrationMat_cases:
  "CalculateCalibrationMat ops ref smp npoints m =
     (if npoints < 3 then (- 1, m)
      else if 3 < npoints \<and> (f_small ops (plain_sum ops smp 0 (nat npoints))
                              \<or> f_small ops (plain_sum ops smp 1 (nat npoints))) then (- 2, m)
      else solve_mat ops (solver_input ops ref smp npoints) npoints m)"
proof -
  obtain a b c d where acc: "accumulated ops ref smp npoints = (a, b, c, d)"
    by (metis prod_cases4)
  from accumulated_sums [where ops = ops and ref = ref and smp = smp and npoints = npoints]
  have s: "a ! 2 = plain_sum ops smp 0 (nat npoints)" "b ! 2 = plain_sum ops smp 1 (nat npoints)"
    unfolding acc by simp_all
  show ?thesis
    by (auto simp: CalculateCalibrationMat_def solver_input_def Let_def acc s)
qed

subsection \<open>Sums of squares and plain sums\<close>

lemma rounded_int_magnitude:
  assumes "rounded_arith ops val rnd"
  shows "v = 0 \<Longrightarrow> val (f_mul ops (f_of_int ops v) (f_of_int ops v)) = 0"
    and "v \<noteq> 0 \<Longrightarrow> 1 \<le> val (f_mul ops (f_of_int ops v) (f_of_int ops v))"
proof -
  from assms have m: "mono rnd" and r: "rnd 0 = 0" "rnd 1 = 1" "rnd (- 1) = - 1"
    and oi: "\<And>i. val (f_of_int ops i) = rnd (of_int i)"
    and mu: "\<And>x y. val (f_mul ops x y) = rnd (val x * val y)"
    unfolding rounded_arith_def by blast+
  show "val (f_mul ops (f_of_int ops v) (f_of_int ops v)) = 0" if "v = 0"
    using that by (simp add: mu oi r)
  show "1 \<le> val (f_mul ops (f_of_int ops v) (f_of_int ops v))" if "v \<noteq> 0"
  proof -
    have big: "1 \<le> \<bar>rnd (of_int v)\<bar>"
    proof (cases "0 < v")
      case True
      then have "(1::real) \<le> of_int v" by simp
      from monoD [OF m this] show ?thesis using r by simp
    next
      case False
      with that have "of_int v \<le> (- 1 :: real)" by simp
      from monoD [OF m this] show ?thesis using r by simp
    qed
    have "1 \<le> \<bar>rnd (of_int v)\<bar> * \<bar>rnd (of_int v)\<bar>"
      using mult_mono [OF big big] by simp
    then have "1 \<le> rnd (of_int v) * rnd (of_int v)" by (simp add: abs_mult_self_eq)
    from monoD [OF m this] show ?thesis by (simp add: mu oi r)
  qed
qed

lemma square_sum_Suc:
  "square_sum ops p off (Suc n)
     = f_add ops (square_sum ops p off n)
         (f_mul ops (f_of_int ops (p (2 * n + off))) (f_of_int ops (p (2 * n + off))))"
  by (simp add: square_sum_def)

lemma plain_sum_Suc:
  "plain_sum ops p off (Suc n)
     = f_add ops (plain_sum ops p off n) (f_of_int ops (p (2 * n + off)))"
  by (simp add: plain_sum_def)

lemma square_sum_magnitude:
  assumes "rounded_arith ops val rnd"
  shows "0 \<le> val (square_sum ops p off n)
       \<and> ((\<exists>i<n. p (2 * i + off) \<noteq> 0) \<longrightarrow> 1 \<le> val (square_sum ops p off n))"
proof -
  from assms have m: "mono rnd" and r: "rnd 0 = 0" "rnd 1 = 1"
    and oi: "\<And>i. val (f_of_int ops i) = rnd (of_int i)"
    and ad: "\<And>x y. val (f_add ops x y) = rnd (val x + val y)"
    unfolding rounded_arith_def by blast+
  show ?thesis
  proof (induction n)
    case 0
    show ?case by (simp add: square_sum_def oi r)
  next
    case (Suc n)
    let ?acc = "val (square_sum ops p off n)"
    let ?s = "val (f_mul ops (f_of_int ops (p (2 * n + off))) (f_of_int ops (p (2 * n + off))))"
    have s0: "0 \<le> ?s"
      using rounded_int_magnitude [OF assms, of "p (2 * n + off)"]
      by (cases "p (2 * n + off) = 0") simp_all
    have v: "val (square_sum ops p off (Suc n)) = rnd (?acc + ?s)"
      unfolding square_sum_Suc ad ..
    from Suc.IH have acc0: "0 \<le> ?acc" by simp
    then have "0 \<le> ?acc + ?s" using s0 by simp
    from monoD [OF m this] have nonneg: "0 \<le> val (square_sum ops p off (Suc n))"
      unfolding v using r by simp
    have big: "1 \<le> val (square_sum ops p off (Suc n))" if "\<exists>i<Suc n. p (2 * i + off) \<noteq> 0"
    proof -
      from that consider "\<exists>i<n. p (2 * i + off) \<noteq> 0" | "p (2 * n + off) \<noteq> 0"
        using less_Suc_eq by metis
      then have "1 \<le> ?acc + ?s"
      proof cases
        case 1
        with Suc.IH have "1 \<le> ?acc" by simp
        then show ?thesis using s0 by simp
      next
        case 2
        from rounded_int_magnitude(2) [OF assms 2] show ?thesis using acc0 by simp
      qed
      from monoD [OF m this] show ?thesis unfolding v using r by simp
    qed
    show ?case using nonneg big by blast
  qed
qed

lemma plain_sum_of_zeros:
  assumes "rounded_arith ops val rnd"
  shows "(\<forall>i<n. p (2 * i + off) = 0) \<Longrightarrow> val (plain_sum ops p off n) = 0"
proof (induction n)
  case 0
  from assms show ?case by (simp add: plain_sum_def rounded_arith_def)
next
  case (Suc n)
  from assms have r: "rnd 0 = 0"
    and oi: "\<And>i. val (f_of_int ops i) = rnd (of_int i)"
    and ad: "\<And>x y. val (f_add ops x y) = rnd (val x + val y)"
    unfolding rounded_arith_def by blast+
  from Suc have "val (plain_sum ops p off n) = 0" "p (2 * n + off) = 0" by simp_all
  then show ?case unfolding plain_sum_Suc ad oi by (simp add: r)
qed

lemma small_squares_small_sum:
  assumes "rounded_arith ops val rnd" "f_small ops (square_sum ops p off n)"
  shows "f_small ops (plain_sum ops p off n)"
proof -
  from assms(1) have sm: "\<And>x. f_small ops x \<longleftrightarrow> \<bar>val x\<bar> < 1 / 10 ^ 9"
    unfolding rounded_arith_def by blast
  from assms(2) have "\<bar>val (square_sum ops p off n)\<bar> < 1 / 10 ^ 9" by (simp only: sm)
  then have "\<not> 1 \<le> val (square_sum ops p off n)" by simp
  with square_sum_magnitude [OF assms(1), of p off n]
  have "\<forall>i<n. p (2 * i + off) = 0" by blast
  from plain_sum_of_zeros [OF assms(1) this] show ?thesis by (simp add: sm)
qed

text \<open>
  Claim C8: \<open>CalculateCalibrationMat\<close> returns -1 exactly when \<open>npoints < 3\<close>;
  for \<open>npoints > 3\<close> it returns -2 when the accumulated sum of squares of the sample x
  coordinates or of the sample y coordinates passes the test \<open>fabs(.) < 1e-9\<close>, in
  every rounded arithmetic; it returns -3 exactly when there are at least three points,
  -2 is not returned, and the determinant \<open>k\<close> passes that test; otherwise it returns
  \<open>npoints\<close>; and on every negative return the output matrix is as it was. What the
  code tests for -2 is the plain sum of the coordinates (the later divisors \<open>a[2]\<close>,
  \<open>b[2]\<close>): -2 is returned exactly when one of the two passes the test, in every
  arithmetic, and a small sum of squares makes the plain sum small.
\<close>

theorem calibration_error_codes:
  "(fst (CalculateCalibrationMat ops ref smp npoints m) = - 1 \<longleftrightarrow> npoints < 3)
 \<and> (rounded_arith ops val rnd \<and> 3 < npoints
      \<and> (f_small ops (square_sum ops smp 0 (nat npoints))
           \<or> f_small ops (square_sum ops smp 1 (nat npoints))) \<longrightarrow>
        fst (CalculateCalibrationMat ops ref smp npoints m) = - 2)
 \<and> (fst (CalculateCalibrationMat ops ref smp npoints m) = - 2 \<longleftrightarrow>
        3 < npoints \<and> (f_small ops (plain_sum ops smp 0 (nat npoints))
                        \<or> f_small ops (plain_sum ops smp 1 (nat npoints))))
 \<and> (fst (CalculateCalibrationMat ops ref smp npoints m) = - 3 \<longleftrightarrow>
        3 \<le> npoints
      \<and> \<not> (3 < npoints \<and> (f_small ops (plain_sum ops smp 0 (nat npoints))
                             \<or> f_small ops (plain_sum ops smp 1 (nat npoints))))
      \<and> f_small ops (calib_k ops (solver_input ops ref smp npoints)))
 \<and> (fst (CalculateCalibrationMat ops ref smp npoints m) = - 1
      \<or> fst (CalculateCalibrationMat ops ref smp npoints m) = - 2
      \<or> fst (CalculateCalibrationMat ops ref smp npoints m) = - 3
      \<or> fst (CalculateCalibrationMat ops ref smp npoints m) = npoints \<and> 3 \<le> npoints)
 \<and> (fst (CalculateCalibrationMat ops ref smp npoints m) < 0 \<longrightarrow>
        snd (CalculateCalibrationMat ops ref smp npoints m) = m)"
proof -
  let ?deg = "3 < npoints \<and> (f_small ops (plain_sum ops smp 0 (nat npoints))
                        \<or> f_small ops (plain_sum ops smp 1 (nat npoints)))"
  let ?k = "calib_k ops (solver_input ops ref smp npoints)"
  let ?R = "CalculateCalibrationMat ops ref smp npoints m"
  have codes: "(fst ?R = - 1 \<longleftrightarrow> npoints < 3)
     \<and> (fst ?R = - 2 \<longleftrightarrow> ?deg)
     \<and> (fst ?R = - 3 \<longleftrightarrow> 3 \<le> npoints \<and> \<not> ?deg \<and> f_small ops ?k)
     \<and> (fst ?R = - 1 \<or> fst ?R = - 2 \<or> fst ?R = - 3 \<or> fst ?R = npoints \<and> 3 \<le> npoints)
     \<and> (fst ?R < 0 \<longrightarrow> snd ?R = m)"
  proof -
    consider (few) "npoints < 3" | (deg) "3 \<le> npoints" ?deg
      | (sing) "3 \<le> npoints" "\<not> ?deg" "f_small ops ?k"
      | (ok) "3 \<le> npoints" "\<not> ?deg" "\<not> f_small ops ?k"
      by linarith
    then show ?thesis
    proof cases
      case few
      then show ?thesis by (simp add: CalculateCalibrationMat_cases)
    next
      case deg
      then show ?thesis by (simp add: CalculateCalibrationMat_cases)
    next
      case sing
      then have "?R = solve_mat ops (solver_input ops ref smp npoints) npoints m"
        unfolding CalculateCalibrationMat_cases by auto
      then show ?thesis using sing by (simp add: solve_mat_code)
    next
      case ok
      then have "?R = solve_mat ops (solver_input ops ref smp npoints) npoints m"
        unfolding CalculateCalibrationMat_cases by auto
      then show ?thesis using ok by (simp add: solve_mat_code)
    qed
  qed
  have squares: "fst ?R = - 2"
    if "rounded_arith ops val rnd" "3 < npoints"
       "f_small ops (square_sum ops smp 0 (nat npoints))
          \<or> f_small ops (square_sum ops smp 1 (nat npoints))"
  proof -
    from that(3) have "f_small ops (plain_sum ops smp 0 (nat npoints))
          \<or> f_small ops (plain_sum ops smp 1 (nat npoints))"
      using small_squares_small_sum [OF that(1)] by blast
    then show ?thesis using codes that(2) by blast
  qed
  show ?thesis using codes squares by blast
qed

lemma upt_small: "[0..<4] = [0, 1, 2, 3]" "[0..<3] = [0, 1, 2]" "[0..<2] = [0, 1::nat]"
  by (simp_all add: upt_rec)

lemma zero_sum_run:
  "CalculateCalibrationMat exact_ops (points [0, 0, 240, 0, 0, 320, 240, 320])
     (points [1, 1, - 1, 2, 1, 3, - 1, 4]) 4 zero_mat = (- 2, zero_mat)"
  by (simp add: CalculateCalibrationMat_def accumulated_def accumulate_def exact_ops_def
        points_def Let_def upt_small)

text \<open>
  The code -2 is not confined to small sums of squares: with the four sample points
  (1,1), (-1,2), (1,3), (-1,4) the call returns -2, while the sums of squares are 4 and
  30; what is zero is the plain sum of the x coordinates. All values are small
  integers, exact in binary32.
\<close>

lemma degenerate_code_with_large_squares:
  "CalculateCalibrationMat exact_ops (points [0, 0, 240, 0, 0, 320, 240, 320])
     (points [1, 1, - 1, 2, 1, 3, - 1, 4]) 4 zero_mat = (- 2, zero_mat)
 \<and> square_sum exact_ops (points [1, 1, - 1, 2, 1, 3, - 1, 4]) 0 4 = 4
 \<and> square_sum exact_ops (points [1, 1, - 1, 2, 1, 3, - 1, 4]) 1 4 = 30
 \<and> \<not> f_small exact_ops 4 \<and> \<not> f_small exact_ops 30
 \<and> plain_sum exact_ops (points [1, 1, - 1, 2, 1, 3, - 1, 4]) 0 4 = 0"
  by (simp add: zero_sum_run)
     (simp add: square_sum_def plain_sum_def exact_ops_def points_def upt_small)

lemma exact_ops_rounded: "rounded_arith exact_ops (\<lambda>x. x) (\<lambda>x. x)"
  by (simp add: rounded_arith_def exact_ops_def mono_def)

text \<open>
  Witness for C8 in exact arithmetic: two points give -1; four sample points whose x
  coordinates are all 0, so that their sum of squares is 0, give -2 and leave the
  matrix; three identical sample points give -3; three points in general position
  give 3.
\<close>

theorem calibration_error_codes_witness:
  "fst (CalculateCalibrationMat exact_ops (points [0, 0, 240, 0]) (points [10, 120, 119, 119])
          2 zero_mat) = - 1
 \<and> rounded_arith exact_ops (\<lambda>x. x) (\<lambda>x. x)
 \<and> f_small exact_ops (square_sum exact_ops (points [0, 1, 0, 2, 0, 3, 0, 4]) 0 4)
 \<and> fst (CalculateCalibrationMat exact_ops (points [0, 0, 240, 0, 0, 320, 240, 320])
          (points [0, 1, 0, 2, 0, 3, 0, 4]) 4 zero_mat) = - 2
 \<and> snd (CalculateCalibrationMat exact_ops (points [0, 0, 240, 0, 0, 320, 240, 320])
          (points [0, 1, 0, 2, 0, 3, 0, 4]) 4 zero_mat) = zero_mat
 \<and> fst (CalculateCalibrationMat exact_ops (points [0, 0, 240, 0, 0, 320])
          (points [5, 5, 5, 5, 5, 5]) 3 zero_mat) = - 3
 \<and> fst (CalculateCalibrationMat exact_ops (points [0, 0, 240, 0, 0, 320])
          (points [0, 0, 1, 0, 0, 1]) 3 zero_mat) = 3"
proof -
  have sq: "f_small exact_ops (square_sum exact_ops (points [0, 1, 0, 2, 0, 3, 0, 4]) 0 (nat 4))"
    by (simp add: square_sum_def exact_ops_def points_def upt_small)
  have sm: "f_small exact_ops 0" "\<not> f_small exact_ops 1" by (simp_all add: exact_ops_def)
  have k1: "calib_k exact_ops (solver_input exact_ops (points [0, 0, 240, 0, 0, 320])
              (points [5, 5, 5, 5, 5, 5]) 3) = 0"
    by (simp add: calib_k_def solver_input_def exact_fill_def exact_ops_def points_def Let_def upt_small)
  have k2: "calib_k exact_ops (solver_input exact_ops (points [0, 0, 240, 0, 0, 320])
              (points [0, 0, 1, 0, 0, 1]) 3) = 1"
    by (simp add: calib_k_def solver_input_def exact_fill_def exact_ops_def points_def Let_def upt_small)
  note w1 = calibration_error_codes [of exact_ops "points [0, 0, 240, 0]"
             "points [10, 120, 119, 119]" 2 zero_mat]
  note w2 = calibration_error_codes [of exact_ops "points [0, 0, 240, 0, 0, 320, 240, 320]"
             "points [0, 1, 0, 2, 0, 3, 0, 4]" 4 zero_mat "\<lambda>x. x" "\<lambda>x. x"]
  note w3 = calibration_error_codes [of exact_ops "points [0, 0, 240, 0, 0, 320]"
             "points [5, 5, 5, 5, 5, 5]" 3 zero_mat, unfolded k1]
  note w4 = calibration_error_codes [of exact_ops "points [0, 0, 240, 0, 0, 320]"
             "points [0, 0, 1, 0, 0, 1]" 3 zero_mat, unfolded k2]
  from w1 have a1: "fst (CalculateCalibrationMat exact_ops (points [0, 0, 240, 0])
          (points [10, 120, 119, 119]) 2 zero_mat) = - 1" by simp
  from w2 exact_ops_rounded sq
  have a2: "fst (CalculateCalibrationMat exact_ops (points [0, 0, 240, 0, 0, 320, 240, 320])
          (points [0, 1, 0, 2, 0, 3, 0, 4]) 4 zero_mat) = - 2" by simp
  from w2 a2 have a3: "snd (CalculateCalibrationMat exact_ops (points [0, 0, 240, 0, 0, 320, 240, 320])
          (points [0, 1, 0, 2, 0, 3, 0, 4]) 4 zero_mat) = zero_mat" by simp
  from w3 sm(1) have a4: "fst (CalculateCalibrationMat exact_ops (points [0, 0, 240, 0, 0, 320])
          (points [5, 5, 5, 5, 5, 5]) 3 zero_mat) = - 3" by simp
  from w4 sm(2) have a5: "fst (CalculateCalibrationMat exact_ops (points [0, 0, 240, 0, 0, 320])
          (points [0, 0, 1, 0, 0, 1]) 3 zero_mat) = 3" by auto
  have sq': "f_small exact_ops (square_sum exact_ops (points [0, 1, 0, 2, 0, 3, 0, 4]) 0 4)"
    using sq by simp
  show ?thesis using a1 a2 a3 a4 a5 sq' exact_ops_rounded by simp
qed

subsection \<open>Applying the matrix\<close>


lemma TouchTransformCoords_second_from_first:
  "snd (TouchTransformCoords ops pcmat (Px, Py))
     = f_to_int16 ops
         (f_add ops
            (f_add ops
               (f_add ops
                  (f_mul ops (f_mul ops (f_div ops (f_of_int ops 1) (f_of_int ops 1024)) (KY1 pcmat))
                             (f_of_int ops (fst (TouchTransformCoords ops pcmat (Px, Py)))))
                  (f_mul ops (f_mul ops (f_div ops (f_of_int ops 1) (f_of_int ops 1024)) (KY2 pcmat))
                             (f_of_int ops Py)))
               (KY3 pcmat))
            (f_half ops))"
  by (simp add: TouchTransformCoords_def Let_def)

text \<open>
  Claim C9 at a failing input: the matrix that maps \<open>(x, y)\<close> to \<open>(x + 10, x)\<close>
  and the point (100, 50). The claim promises (110, 100); the code returns (110, 110),
  because the second assignment reads the \<open>*Px\<close> the first one has just stored.
  Every intermediate value is an integer or an integer plus one half, exact in binary32.
\<close>

theorem TouchTransformCoords_uses_new_x:
  "TouchTransformCoords exact_ops shear_mat (100, 50) = (110, 110)
 \<and> affine_by_spec shear_mat (100, 50) = (110, 100)"
  by (simp add: TouchTransformCoords_def affine_by_spec_def exact_ops_def shear_mat_def Let_def
        round_def)

end
